theory Spec2Isabelle
  imports Main "HOL-Library.Word"
begin

section \<open>The rate limiter of RateLimiter.h\<close>

text \<open>
  The class template \<open>RateLimiter<Period, CallsPerPeriod>\<close> is a token bucket over the
  Arduino tick counter \<open>millis()\<close>. \<open>DurationType\<close> and \<open>TokenType\<close> are
  \<open>unsigned long\<close>, modelled as \<open>'l word\<close>; \<open>dropped_calls\<close>, \<open>new_tokens\<close> and the
  argument of the dropped-call callback are \<open>unsigned int\<close>, modelled as \<open>'i word\<close>
  (16 bits on AVR boards, 32 bits on ARM boards, where \<open>unsigned long\<close> has 32 bits).
  All arithmetic on them wraps around, as unsigned arithmetic in C++ does. The template
  parameters \<open>Period\<close> and \<open>CallsPerPeriod\<close> are the arguments \<open>P\<close> and \<open>C\<close> of every
  function below.
\<close>

datatype fault = DivisionByZero

datatype 'u call = FnCalled | DroppedCallCallback 'u

text \<open>
  The object's four fields, followed by what the object runs in: the platform's tick
  count since boot (\<open>clock\<close>, of which \<open>millis()\<close> shows the low bits), the ticks by
  which the coming calls of \<open>delay\<close> oversleep (\<open>oversleep\<close>), and the calls the object
  has made to \<open>fn\<close> and to the dropped-call callback, each with the tick count at which
  it was made (\<open>trace\<close>). The fields are named as in the class, less the closing
  underscore, which Isabelle keeps for its own names. \<open>dropped_callback\<close> is a
  \<open>std::function\<close>: the code only tests whether it is empty and calls it, so the field
  holds whether a callable is set.
\<close>

record ('t, 'u) fields =
  bucket :: 't
  last_bucket_update :: 't
  dropped_calls :: 'u
  dropped_callback :: bool
  clock :: nat
  oversleep :: "nat list"
  trace :: "(nat \<times> 'u call) list"

type_synonym ('l, 'i) state = "('l word, 'i word) fields"

subsection \<open>The platform: Arduino.h\<close>

text \<open>
  Modelled from the spec: \<open>millis()\<close> of Arduino.h, which is not among the sources. The
  time source is "a zero-argument function returning the current tick count as a
  fixed-width unsigned integer, monotonically increasing except for defined wraparound
  at its maximum value".
\<close>

definition millis :: "('l::len, 'i::len) state \<Rightarrow> 'l word" where
  "millis w = of_nat (clock w)"

text \<open>
  Modelled from the spec: \<open>delay()\<close> of Arduino.h, "a function taking a duration (ticks)
  and blocking the calling thread of control for at least that long". The ticks beyond
  the duration are read off \<open>oversleep\<close>; with an empty list the delay is exact.
\<close>

definition delay :: "'l word \<Rightarrow> ('l::len, 'i::len) state \<Rightarrow> ('l, 'i) state" where
  "delay d w =
     (case oversleep w of
        [] \<Rightarrow> w\<lparr>clock := clock w + unat d\<rparr>
      | x # xs \<Rightarrow> w\<lparr>clock := clock w + unat d + x, oversleep := xs\<rparr>)"

text \<open>
  Modelled from the spec: the macro \<open>min(a, b)\<close> of Arduino.h,
  \<open>((a) < (b) ? (a) : (b))\<close>; the spec's \<open>tokens = min(tokens + new_tokens, capacity)\<close>.
\<close>

definition min_macro :: "'l::len word \<Rightarrow> 'l word \<Rightarrow> 'l word" where
  "min_macro a b = (if a < b then a else b)"

subsection \<open>The member functions\<close>

definition TimeNow :: "('l::len, 'i::len) state \<Rightarrow> 'l word" where
  "TimeNow w = millis w"

text \<open>
  The constructor, run at tick count \<open>t\<close> on a platform whose delays oversleep by \<open>ov\<close>:
  \<open>bucket_(CallsPerPeriod), last_bucket_update_(TimeNow()), dropped_calls_(0)\<close>, and no
  callback.
\<close>

definition RateLimiter :: "'l::len word \<Rightarrow> nat \<Rightarrow> nat list \<Rightarrow> ('l, 'i::len) state" where
  "RateLimiter C t ov =
     (let w = \<lparr>bucket = C, last_bucket_update = 0, dropped_calls = 0,
                dropped_callback = False, clock = t, oversleep = ov, trace = []\<rparr>
      in w\<lparr>last_bucket_update := TimeNow w\<rparr>)"

definition SetDroppedCallCallback :: "bool \<Rightarrow> ('l::len, 'i::len) state \<Rightarrow> ('l, 'i) state" where
  "SetDroppedCallCallback fn w = w\<lparr>dropped_callback := fn\<rparr>"

definition GetElapsedTime :: "('l::len, 'i::len) state \<Rightarrow> 'l word" where
  "GetElapsedTime w =
     (let now = TimeNow w in
      if now < last_bucket_update w
      then - 1 - last_bucket_update w + now
      else now - last_bucket_update w)"

text \<open>
  \<open>UpdateBucket\<close>. The two divisions are by the template parameters; a zero divisor is
  undefined behaviour in C++ and is the fault \<open>DivisionByZero\<close> here. \<open>new_tokens\<close> is an
  \<open>unsigned int\<close>: the quotient is cut to its width, and widened again where it meets an
  \<open>unsigned long\<close>.
\<close>

definition UpdateBucket ::
  "'l::len word \<Rightarrow> 'l word \<Rightarrow> ('l, 'i::len) state \<Rightarrow> fault + ('l, 'i) state" where
  "UpdateBucket P C w =
     (let elapsed_time = GetElapsedTime w in
      if P = 0 then Inl DivisionByZero
      else
        let new_tokens = (ucast (elapsed_time * C div P) :: 'i word);
            w1 = w\<lparr>bucket := bucket w + ucast new_tokens\<rparr>;
            w2 = w1\<lparr>bucket := min_macro (bucket w1) C\<rparr>
        in if C = 0 then Inl DivisionByZero
           else Inr (w2\<lparr>last_bucket_update :=
                         last_bucket_update w2 + ucast new_tokens * P div C\<rparr>))"

definition EstimateWaitTime ::
  "'l::len word \<Rightarrow> 'l word \<Rightarrow> ('l, 'i::len) state \<Rightarrow> fault + 'l word" where
  "EstimateWaitTime P C w =
     (if C = 0 then Inl DivisionByZero
      else
        let time_per_token = P div C;
            elapsed_time = GetElapsedTime w
        in if time_per_token > elapsed_time
           then Inr (time_per_token - elapsed_time)
           else Inr 0)"

definition MaybeCallDroppedCallCallback :: "('l::len, 'i::len) state \<Rightarrow> ('l, 'i) state" where
  "MaybeCallDroppedCallCallback w =
     (if dropped_callback w \<and> dropped_calls w > 0
      then w\<lparr>trace := trace w @ [(clock w, DroppedCallCallback (dropped_calls w))],
              dropped_calls := 0\<rparr>
      else w)"

text \<open>The call \<open>fn()\<close>: it is recorded in the trace.\<close>

definition call_fn :: "('l::len, 'i::len) state \<Rightarrow> ('l, 'i) state" where
  "call_fn w = w\<lparr>trace := trace w @ [(clock w, FnCalled)]\<rparr>"

definition CallOrDrop ::
  "'l::len word \<Rightarrow> 'l word \<Rightarrow> ('l, 'i::len) state \<Rightarrow> fault + (bool \<times> ('l, 'i) state)" where
  "CallOrDrop P C w =
     (case UpdateBucket P C w of
        Inl e \<Rightarrow> Inl e
      | Inr w1 \<Rightarrow>
          if bucket w1 > 0
          then let w2 = MaybeCallDroppedCallCallback w1;
                   w3 = call_fn w2;
                   w4 = w3\<lparr>bucket := bucket w3 - 1\<rparr>
               in Inr (True, w4)
          else Inr (False, w1\<lparr>dropped_calls := dropped_calls w1 + 1\<rparr>))"

text \<open>
  The loop of \<open>Call\<close>, entered after the first \<open>UpdateBucket\<close>. It has no bound: not
  returning is the value \<open>None\<close>.
\<close>

partial_function (option) Call_loop ::
  "'l::len word \<Rightarrow> 'l word \<Rightarrow> ('l, 'i::len) state \<Rightarrow> (fault + ('l, 'i) state) option" where
  "Call_loop P C w =
     (if bucket w = 0
      then (case EstimateWaitTime P C w of
              Inl e \<Rightarrow> Some (Inl e)
            | Inr d \<Rightarrow>
                (case UpdateBucket P C (delay d w) of
                   Inl e \<Rightarrow> Some (Inl e)
                 | Inr w1 \<Rightarrow> Call_loop P C w1))
      else Some (Inr w))"

declare Call_loop.simps [code]

definition Call ::
  "(unit \<Rightarrow> 'r) \<Rightarrow> 'l::len word \<Rightarrow> 'l word \<Rightarrow> ('l, 'i::len) state
     \<Rightarrow> (fault + ('r \<times> ('l, 'i) state)) option" where
  "Call fn P C w =
     (case UpdateBucket P C w of
        Inl e \<Rightarrow> Some (Inl e)
      | Inr w1 \<Rightarrow>
          (case Call_loop P C w1 of
             None \<Rightarrow> None
           | Some (Inl e) \<Rightarrow> Some (Inl e)
           | Some (Inr w2) \<Rightarrow>
               let w3 = MaybeCallDroppedCallCallback w2;
                   w4 = w3\<lparr>bucket := bucket w3 - 1\<rparr>
               in Some (Inr (fn (), call_fn w4))))"

subsection \<open>Sequences of operations\<close>

text \<open>
  What a client and the platform do to one limiter, step by step: time passes
  (\<open>Advance\<close>), a callback is set, the bucket is refilled (\<open>UpdateBucket\<close>, the private
  step every call starts with), and the two calls. \<open>fn\<close> is any callable; its result is
  dropped here.
\<close>

datatype op = Advance nat | SetCallback bool | Refill | DoCallOrDrop | DoCall

definition advance :: "nat \<Rightarrow> ('l::len, 'i::len) state \<Rightarrow> ('l, 'i) state" where
  "advance d w = w\<lparr>clock := clock w + d\<rparr>"

fun step ::
  "'l::len word \<Rightarrow> 'l word \<Rightarrow> op \<Rightarrow> ('l, 'i::len) state \<Rightarrow> (fault + ('l, 'i) state) option" where
  "step P C (Advance d) w = Some (Inr (advance d w))"
| "step P C (SetCallback fn) w = Some (Inr (SetDroppedCallCallback fn w))"
| "step P C Refill w = Some (UpdateBucket P C w)"
| "step P C DoCallOrDrop w = Some (map_sum id snd (CallOrDrop P C w))"
| "step P C DoCall w = map_option (map_sum id snd) (Call (\<lambda>_. ()) P C w)"

fun run ::
  "'l::len word \<Rightarrow> 'l word \<Rightarrow> op list \<Rightarrow> ('l, 'i::len) state \<Rightarrow> (fault + ('l, 'i) state) option" where
  "run P C [] w = Some (Inr w)"
| "run P C (x # xs) w =
     (case step P C x w of
        None \<Rightarrow> None
      | Some (Inl e) \<Rightarrow> Some (Inl e)
      | Some (Inr w1) \<Rightarrow> run P C xs w1)"

text \<open>
  \<open>CallOrDrop\<close> called once after each of the given waits, with the answers in order.
\<close>

fun CallOrDrop_each ::
  "'l::len word \<Rightarrow> 'l word \<Rightarrow> nat list \<Rightarrow> ('l, 'i::len) state
     \<Rightarrow> fault + (bool list \<times> ('l, 'i) state)" where
  "CallOrDrop_each P C [] w = Inr ([], w)"
| "CallOrDrop_each P C (d # ds) w =
     (case CallOrDrop P C (advance d w) of
        Inl e \<Rightarrow> Inl e
      | Inr (b, w1) \<Rightarrow>
          (case CallOrDrop_each P C ds w1 of
             Inl e \<Rightarrow> Inl e
           | Inr (bs, w2) \<Rightarrow> Inr (b # bs, w2)))"

text \<open>The calls of \<open>fn\<close> in a trace, and those made at a tick count from \<open>t\<close> up to \<open>t + n\<close>.\<close>

definition fn_calls :: "(nat \<times> 'u call) list \<Rightarrow> nat" where
  "fn_calls tr = length (filter (\<lambda>e. snd e = FnCalled) tr)"

definition admitted_in :: "nat \<Rightarrow> nat \<Rightarrow> (nat \<times> 'u call) list \<Rightarrow> nat" where
  "admitted_in t n tr =
     length (filter (\<lambda>e. snd e = FnCalled \<and> t \<le> fst e \<and> fst e < t + n) tr)"

subsection \<open>Bookkeeping for the rate of admission\<close>

text \<open>
  The calls of \<open>fn\<close> made at tick \<open>t\<close> or later, and what a bucket is worth in ticks:
  \<open>k\<close> ticks for each of its \<open>b\<close> tokens and of the tokens that the \<open>e\<close> ticks since the
  last refill will add, up to \<open>c\<close> tokens, and the ticks left over.
\<close>

definition admitted_from :: "nat \<Rightarrow> (nat \<times> 'u call) list \<Rightarrow> nat" where
  "admitted_from t tr = length (filter (\<lambda>e. snd e = FnCalled \<and> t \<le> fst e) tr)"

definition credit :: "nat \<Rightarrow> nat \<Rightarrow> nat \<Rightarrow> nat \<Rightarrow> nat" where
  "credit k c b e = k * min c (b + e div k) + e mod k"

definition potential :: "'l::len word \<Rightarrow> 'l word \<Rightarrow> ('l, 'i::len) state \<Rightarrow> nat" where
  "potential P C w =
     credit (unat P div unat C) (unat C) (unat (bucket w))
       (clock w - unat (last_bucket_update w))"

text \<open>
  The tick arithmetic fits at the state \<open>w\<close>, for a limiter whose last refill was at
  tick \<open>t0\<close> or later: the tick counter has not wrapped, the ticks since \<open>t0\<close> times
  \<open>CallsPerPeriod\<close> fit an \<open>unsigned long\<close>, and that product divided by \<open>Period\<close>
  fits an \<open>unsigned int\<close>.
\<close>

definition fits :: "'l::len word \<Rightarrow> 'l word \<Rightarrow> nat \<Rightarrow> ('l, 'i::len) state \<Rightarrow> bool" where
  "fits P C t0 w =
     (clock w < 2 ^ LENGTH('l) \<and> (clock w - t0) * unat C < 2 ^ LENGTH('l) \<and>
      (clock w - t0) * unat C div unat P < 2 ^ LENGTH('i))"

text \<open>
  The operations that refill the bucket, and a run in which the tick arithmetic of each
  of them fits: at the end of the operation, for the ticks since \<open>last_bucket_update\<close> as
  the operation found it. In \<open>UpdateBucket\<close> and \<open>CallOrDrop\<close> these are the ticks that
  the refill multiplies by \<open>CallsPerPeriod\<close>; in \<open>Call\<close> no refill of the loop sees more.
\<close>

definition refilling :: "op \<Rightarrow> bool" where
  "refilling x = (x = Refill \<or> x = DoCallOrDrop \<or> x = DoCall)"

fun refills_fit :: "'l::len word \<Rightarrow> 'l word \<Rightarrow> op list \<Rightarrow> ('l, 'i::len) state \<Rightarrow> bool" where
  "refills_fit P C [] w = True"
| "refills_fit P C (x # xs) w =
     (case step P C x w of
        Some (Inr w1) \<Rightarrow>
          (refilling x \<longrightarrow> fits P C (unat (last_bucket_update w)) w1) \<and> refills_fit P C xs w1
      | _ \<Rightarrow> True)"

text \<open>
  What holds of a limiter last refilled at tick \<open>t0\<close> or later, and is kept by every
  operation whose arithmetic fits: the last
  refill lies between \<open>t0\<close> and now, nothing in the trace is later than now, the calls
  admitted since any tick \<open>t\<close> and the bucket together are worth no more than a full
  bucket and the ticks since \<open>t\<close>, and no window of \<open>Period\<close> ticks holds more than twice
  \<open>CallsPerPeriod\<close> admitted calls.
\<close>

definition rate_inv :: "'l::len word \<Rightarrow> 'l word \<Rightarrow> nat \<Rightarrow> ('l, 'i::len) state \<Rightarrow> bool" where
  "rate_inv P C t0 w =
     (bucket w \<le> C \<and> t0 \<le> unat (last_bucket_update w) \<and>
      unat (last_bucket_update w) \<le> clock w \<and>
      (\<forall>e \<in> set (trace w). fst e \<le> clock w) \<and>
      (\<forall>t \<le> clock w.
         admitted_from t (trace w) * (unat P div unat C) + potential P C w
           \<le> unat C * (unat P div unat C) + (unat P div unat C - 1) + (clock w - t)) \<and>
      (\<forall>t. admitted_in t (unat P) (trace w) \<le> 2 * unat C))"

section \<open>Basic facts\<close>

lemma RateLimiter_fields:
  "RateLimiter C t ov =
     \<lparr>bucket = C, last_bucket_update = of_nat t, dropped_calls = 0,
      dropped_callback = False, clock = t, oversleep = ov, trace = []\<rparr>"
  by (simp add: RateLimiter_def TimeNow_def millis_def)

lemma min_macro_le: "min_macro a C \<le> C"
  by (auto simp add: min_macro_def)

lemma min_macro_id: "a \<le> C \<Longrightarrow> min_macro a C = a"
  by (auto simp: min_macro_def)

lemma UpdateBucket_Inr:
  fixes w :: "('l::len, 'i::len) state"
  assumes "P \<noteq> 0" "C \<noteq> 0"
  shows "UpdateBucket P C w =
     Inr (w\<lparr>bucket := min_macro (bucket w + ucast (ucast (GetElapsedTime w * C div P) :: 'i word)) C,
            last_bucket_update := last_bucket_update w + ucast (ucast (GetElapsedTime w * C div P) :: 'i word) * P div C\<rparr>)"
  using assms by (simp add: UpdateBucket_def Let_def)

lemma UpdateBucket_frame:
  assumes "UpdateBucket P C w = Inr w1"
  shows "dropped_calls w1 = dropped_calls w" "dropped_callback w1 = dropped_callback w"
    "clock w1 = clock w" "oversleep w1 = oversleep w" "trace w1 = trace w"
  using assms by (auto simp: UpdateBucket_def Let_def split: if_splits)

lemma UpdateBucket_bucket_le:
  assumes "UpdateBucket P C w = Inr w1"
  shows "bucket w1 \<le> C"
  using assms by (auto simp: UpdateBucket_def Let_def min_macro_le split: if_splits)

lemma UpdateBucket_no_elapsed:
  assumes "P \<noteq> 0" "C \<noteq> 0" "bucket w \<le> C" "TimeNow w = last_bucket_update w"
  shows "UpdateBucket P C w = Inr w"
  using assms by (simp add: UpdateBucket_Inr GetElapsedTime_def min_macro_id)

lemma fn_calls_append: "fn_calls (xs @ ys) = fn_calls xs + fn_calls ys"
  by (simp add: fn_calls_def)

lemma GetElapsedTime_no_wrap:
  "\<not> TimeNow w < last_bucket_update w \<Longrightarrow> GetElapsedTime w = TimeNow w - last_bucket_update w"
  by (simp add: GetElapsedTime_def)


subsection \<open>The loop of \<open>Call\<close>\<close>

text \<open>
  Induction over a run of the loop that returns: it leaves at once with a bucket that is
  not empty, or it waits, refills and goes on from the refilled state.
\<close>

lemma UpdateBucket_Inl_iff:
  "(UpdateBucket P C w = Inl DivisionByZero) = (P = 0 \<or> C = 0)"
  by (auto simp add: UpdateBucket_def Let_def)

lemma EstimateWaitTime_Inl_iff:
  "(EstimateWaitTime P C w = Inl DivisionByZero) = (C = 0)"
  by (auto simp add: EstimateWaitTime_def Let_def)

lemma Call_loop_induct [consumes 1, case_names exit fault_wait fault_update iter]:
  assumes run: "Call_loop P C w = Some r"
    and exit: "\<And>w. bucket w \<noteq> 0 \<Longrightarrow> Q w (Inr w)"
    and fault_wait: "\<And>w e. bucket w = 0 \<Longrightarrow> EstimateWaitTime P C w = Inl e \<Longrightarrow> Q w (Inl e)"
    and fault_update: "\<And>w d e. bucket w = 0 \<Longrightarrow> EstimateWaitTime P C w = Inr d \<Longrightarrow>
            UpdateBucket P C (delay d w) = Inl e \<Longrightarrow> Q w (Inl e)"
    and iter: "\<And>w d w1 r. bucket w = 0 \<Longrightarrow> EstimateWaitTime P C w = Inr d \<Longrightarrow>
            UpdateBucket P C (delay d w) = Inr w1 \<Longrightarrow> Q w1 r \<Longrightarrow> Q w r"
  shows "Q w r"
proof -
  have "fst (fst ((P, C), w)) = P \<and> snd (fst ((P, C), w)) = C \<longrightarrow> Q (snd ((P, C), w)) r"
  proof (rule Call_loop.raw_induct [where Pa = "\<lambda>x r. fst (fst x) = P \<and> snd (fst x) = C \<longrightarrow> Q (snd x) r", OF _ run])
    fix f P' C' w r
    assume IH: "\<And>a b c y. f a b c = Some y \<Longrightarrow>
                 fst (fst ((a, b), c)) = P \<and> snd (fst ((a, b), c)) = C \<longrightarrow> Q (snd ((a, b), c)) y"
      and body: "(if bucket w = 0
          then case EstimateWaitTime P' C' w of Inl e \<Rightarrow> Some (Inl e)
               | Inr d \<Rightarrow> (case UpdateBucket P' C' (delay d w) of Inl e \<Rightarrow> Some (Inl e)
                            | Inr w1 \<Rightarrow> f P' C' w1)
          else Some (Inr w)) = Some r"
    show "fst (fst ((P', C'), w)) = P \<and> snd (fst ((P', C'), w)) = C \<longrightarrow> Q (snd ((P', C'), w)) r"
    proof
      assume "fst (fst ((P', C'), w)) = P \<and> snd (fst ((P', C'), w)) = C"
      then have eq: "P' = P" "C' = C" by simp_all
      show "Q (snd ((P', C'), w)) r"
      proof (cases "bucket w = 0")
        case False
        with body exit show ?thesis by auto
      next
        case True
        show ?thesis
        proof (cases "EstimateWaitTime P C w")
          case (Inl e)
          with body True eq fault_wait show ?thesis by auto
        next
          case (Inr d)
          show ?thesis
          proof (cases "UpdateBucket P C (delay d w)")
            case (Inl e)
            with body True eq Inr fault_update show ?thesis by auto
          next
            case w1: (Inr w1)
            with body True eq Inr have "f P C w1 = Some r" by simp
            from IH [OF this] have "Q w1 r" by simp
            with iter [OF True Inr w1] show ?thesis by simp
          qed
        qed
      qed
    qed
  qed
  then show ?thesis by simp
qed

lemma Call_loop_no_fault:
  assumes "Call_loop P C w = Some r" "P \<noteq> 0" "C \<noteq> 0"
  shows "\<exists>w'. r = Inr w'"
  using assms
proof (induction rule: Call_loop_induct)
  case (exit w)
  then show ?case by simp
next
  case (fault_wait w e)
  then show ?case using EstimateWaitTime_Inl_iff [of P C w] by (cases e) simp
next
  case (fault_update w d e)
  then show ?case using UpdateBucket_Inl_iff [of P C "delay d w"] by (cases e) simp
next
  case (iter w d w1 r)
  then show ?case by simp
qed

lemma Call_loop_exit_bucket:
  assumes "Call_loop P C w = Some (Inr w')"
  shows "bucket w' \<noteq> 0"
proof -
  have "\<forall>w'. r = Inr w' \<longrightarrow> bucket w' \<noteq> 0" if "Call_loop P C w = Some r" for r
    using that by (induction rule: Call_loop_induct) auto
  with assms show ?thesis by blast
qed


subsection \<open>Runs of \<open>CallOrDrop\<close>\<close>

lemma advance_0 [simp]: "advance 0 w = w"
  by (simp add: advance_def)

lemma CallOrDrop_effect:
  assumes "CallOrDrop P C w = Inr (b, w')"
  shows "dropped_callback w' = dropped_callback w" "clock w' = clock w"
    "b \<Longrightarrow> dropped_calls w' = (if dropped_callback w then 0 else dropped_calls w)"
    "b \<Longrightarrow> trace w' = trace w
          @ (if dropped_callback w \<and> 0 < dropped_calls w
             then [(clock w, DroppedCallCallback (dropped_calls w))] else [])
          @ [(clock w, FnCalled)]"
    "\<not> b \<Longrightarrow> dropped_calls w' = dropped_calls w + 1"
    "\<not> b \<Longrightarrow> trace w' = trace w"
proof -
  from assms obtain w1 where w1: "UpdateBucket P C w = Inr w1"
    by (cases "UpdateBucket P C w") (auto simp: CallOrDrop_def)
  note fr = UpdateBucket_frame [OF w1]
  have w': "w' = (if 0 < bucket w1
              then (call_fn (MaybeCallDroppedCallCallback w1))\<lparr>bucket := bucket w1 - 1\<rparr>
              else w1\<lparr>dropped_calls := dropped_calls w1 + 1\<rparr>)"
    and b: "b = (0 < bucket w1)"
    using assms w1
    by (auto simp: CallOrDrop_def Let_def call_fn_def MaybeCallDroppedCallCallback_def
        split: if_splits)
  show "dropped_callback w' = dropped_callback w" "clock w' = clock w"
    by (simp_all add: w' call_fn_def MaybeCallDroppedCallCallback_def fr)
  show "b \<Longrightarrow> dropped_calls w' = (if dropped_callback w then 0 else dropped_calls w)"
    using b by (auto simp add: w' call_fn_def MaybeCallDroppedCallCallback_def fr word_gt_0)
  show "b \<Longrightarrow> trace w' = trace w
          @ (if dropped_callback w \<and> 0 < dropped_calls w
             then [(clock w, DroppedCallCallback (dropped_calls w))] else [])
          @ [(clock w, FnCalled)]"
    using b by (simp add: w' call_fn_def MaybeCallDroppedCallCallback_def fr)
  show "\<not> b \<Longrightarrow> dropped_calls w' = dropped_calls w + 1" "\<not> b \<Longrightarrow> trace w' = trace w"
    using b by (simp_all add: w' fr)
qed

lemma CallOrDrop_each_append:
  "CallOrDrop_each P C (ds @ es) w =
     (case CallOrDrop_each P C ds w of
        Inl e \<Rightarrow> Inl e
      | Inr (bs, w1) \<Rightarrow>
          (case CallOrDrop_each P C es w1 of
             Inl e \<Rightarrow> Inl e
           | Inr (cs, w2) \<Rightarrow> Inr (bs @ cs, w2)))"
  by (induction ds arbitrary: w) (auto split: sum.splits prod.splits)

lemma CallOrDrop_each_length:
  "CallOrDrop_each P C ds w = Inr (bs, w') \<Longrightarrow> length bs = length ds"
  by (induction ds arbitrary: w bs) (auto split: sum.splits prod.splits)

lemma CallOrDrop_each_dropped:
  assumes "CallOrDrop_each P C ds w = Inr (bs, w')" "True \<notin> set bs"
  shows "dropped_calls w' = dropped_calls w + of_nat (length ds) \<and> trace w' = trace w
    \<and> dropped_callback w' = dropped_callback w"
  using assms
proof (induction ds arbitrary: w bs)
  case Nil
  then show ?case by simp
next
  case (Cons d ds)
  from Cons.prems(1) obtain b w1 bs' where
    s: "CallOrDrop P C (advance d w) = Inr (b, w1)"
    and r: "CallOrDrop_each P C ds w1 = Inr (bs', w')" and bs: "bs = b # bs'"
    by (auto split: sum.splits prod.splits)
  from bs Cons.prems(2) have nb: "\<not> b" and nbs: "True \<notin> set bs'" by auto
  from CallOrDrop_effect [OF s] nb
  have "dropped_calls w1 = dropped_calls w + 1" "trace w1 = trace w"
    "dropped_callback w1 = dropped_callback w"
    by (simp_all add: advance_def)
  with Cons.IH [OF r nbs] show ?case by simp
qed

lemma delay_frame:
  "bucket (delay d w) = bucket w" "last_bucket_update (delay d w) = last_bucket_update w"
  "dropped_calls (delay d w) = dropped_calls w" "dropped_callback (delay d w) = dropped_callback w"
  "trace (delay d w) = trace w"
  by (simp_all add: delay_def split: list.splits)

lemma delay_clock: "clock w + unat d \<le> clock (delay d w)"
  by (simp add: delay_def split: list.splits)

lemma Call_loop_frame:
  assumes "Call_loop P C w = Some (Inr w')"
  shows "dropped_calls w' = dropped_calls w \<and> dropped_callback w' = dropped_callback w
    \<and> trace w' = trace w \<and> clock w \<le> clock w'"
proof -
  have "\<forall>w'. r = Inr w' \<longrightarrow> dropped_calls w' = dropped_calls w \<and>
      dropped_callback w' = dropped_callback w \<and> trace w' = trace w \<and> clock w \<le> clock w'"
    if "Call_loop P C w = Some r" for r
    using that
  proof (induction rule: Call_loop_induct)
    case (iter w d w1 r)
    from UpdateBucket_frame [OF iter(3)] delay_clock [of w d] iter(4)
    show ?case by (auto simp: delay_frame)
  qed auto
  with assms show ?thesis by blast
qed

lemma Call_Inr:
  assumes "Call fn P C w = Some (Inr (r, w'))"
  obtains w1 w2 where "UpdateBucket P C w = Inr w1" "Call_loop P C w1 = Some (Inr w2)"
    "r = fn ()"
    "w' = call_fn ((MaybeCallDroppedCallCallback w2)\<lparr>bucket := bucket w2 - 1\<rparr>)"
  using assms
  by (auto simp: Call_def Let_def MaybeCallDroppedCallCallback_def split: sum.splits option.splits if_splits)

lemma Call_dropped_calls:
  assumes "Call fn P C w = Some (Inr (r, w'))"
  shows "dropped_calls w' = (if dropped_callback w then 0 else dropped_calls w)"
proof -
  from assms obtain w1 w2 where 1: "UpdateBucket P C w = Inr w1"
    and 2: "Call_loop P C w1 = Some (Inr w2)"
    and 3: "w' = call_fn ((MaybeCallDroppedCallCallback w2)\<lparr>bucket := bucket w2 - 1\<rparr>)"
    by (rule Call_Inr)
  from UpdateBucket_frame [OF 1] Call_loop_frame [OF 2] show ?thesis
    by (auto simp: 3 call_fn_def MaybeCallDroppedCallCallback_def word_gt_0)
qed

lemma CallOrDrop_each_callback:
  "CallOrDrop_each P C ds w = Inr (bs, w') \<Longrightarrow> dropped_callback w' = dropped_callback w"
proof (induction ds arbitrary: w bs)
  case (Cons d ds)
  from Cons.prems obtain b w1 bs' where
    s: "CallOrDrop P C (advance d w) = Inr (b, w1)"
    and r: "CallOrDrop_each P C ds w1 = Inr (bs', w')"
    by (auto split: sum.splits prod.splits)
  from CallOrDrop_effect(1) [OF s] Cons.IH [OF r] show ?case by (simp add: advance_def)
qed simp

lemma CallOrDrop_each_snoc:
  assumes "CallOrDrop_each P C (ds @ [d]) w = Inr (bs, w')"
  obtains bs' b w1 where "CallOrDrop_each P C ds w = Inr (bs', w1)"
    "CallOrDrop P C (advance d w1) = Inr (b, w')" "bs = bs' @ [b]"
  using assms by (auto simp: CallOrDrop_each_append split: sum.splits prod.splits)

lemma dropped_calls_registered:
  assumes "CallOrDrop_each P C ds w = Inr (bs, w')" "dropped_callback w"
  shows "dropped_calls w' =
     (if True \<in> set bs then 0 else dropped_calls w) + of_nat (length (takeWhile Not (rev bs)))"
  using assms(1)
proof (induction ds arbitrary: bs w' rule: rev_induct)
  case Nil
  then show ?case by simp
next
  case (snoc d ds)
  from snoc.prems obtain bs' b w1 where r: "CallOrDrop_each P C ds w = Inr (bs', w1)"
    and s: "CallOrDrop P C (advance d w1) = Inr (b, w')" and bs: "bs = bs' @ [b]"
    by (rule CallOrDrop_each_snoc)
  have cb: "dropped_callback (advance d w1)"
    using CallOrDrop_each_callback [OF r] assms(2) by (simp add: advance_def)
  show ?case
  proof (cases b)
    case True
    with CallOrDrop_effect(3) [OF s] cb show ?thesis by (simp add: bs)
  next
    case False
    with CallOrDrop_effect(5) [OF s] snoc.IH [OF r] show ?thesis
      by (simp add: bs advance_def)
  qed
qed

lemma dropped_calls_unregistered:
  assumes "CallOrDrop_each P C ds w = Inr (bs, w')" "\<not> dropped_callback w"
  shows "dropped_calls w' = dropped_calls w + of_nat (length (filter Not bs))"
  using assms(1)
proof (induction ds arbitrary: bs w' rule: rev_induct)
  case Nil
  then show ?case by simp
next
  case (snoc d ds)
  from snoc.prems obtain bs' b w1 where r: "CallOrDrop_each P C ds w = Inr (bs', w1)"
    and s: "CallOrDrop P C (advance d w1) = Inr (b, w')" and bs: "bs = bs' @ [b]"
    by (rule CallOrDrop_each_snoc)
  have cb: "\<not> dropped_callback (advance d w1)"
    using CallOrDrop_each_callback [OF r] assms(2) by (simp add: advance_def)
  show ?case
  proof (cases b)
    case True
    with CallOrDrop_effect(3) [OF s] cb snoc.IH [OF r] show ?thesis by (simp add: bs advance_def)
  next
    case False
    with CallOrDrop_effect(5) [OF s] snoc.IH [OF r] show ?thesis
      by (simp add: bs advance_def)
  qed
qed

lemma CallOrDrop_each_clock_last:
  assumes "CallOrDrop_each P C (ds @ [d]) w = Inr (bs, w')"
  obtains bs' b w1 where "CallOrDrop_each P C ds w = Inr (bs', w1)"
    "CallOrDrop P C (advance d w1) = Inr (b, w')" "bs = bs' @ [b]" "clock w' = clock w1 + d"
proof -
  from assms obtain bs' b w1 where r: "CallOrDrop_each P C ds w = Inr (bs', w1)"
    and s: "CallOrDrop P C (advance d w1) = Inr (b, w')" and bs: "bs = bs' @ [b]"
    by (rule CallOrDrop_each_snoc)
  from CallOrDrop_effect(2) [OF s] have "clock w' = clock w1 + d" by (simp add: advance_def)
  with r s bs that show ?thesis by blast
qed

lemma CallOrDrop_each_no_elapsed:
  fixes w :: "('l::len, 'i::len) state"
  assumes "P \<noteq> 0" "C \<noteq> 0" "bucket w = 0" "TimeNow w = last_bucket_update w"
  shows "CallOrDrop_each P C (replicate n 0) w =
     Inr (replicate n False, w\<lparr>dropped_calls := dropped_calls w + of_nat n\<rparr>)"
  using assms(3,4)
proof (induction n arbitrary: w)
  case 0
  then show ?case by simp
next
  case (Suc n)
  have u: "UpdateBucket P C w = Inr w"
    using UpdateBucket_no_elapsed [OF assms(1,2) _ Suc.prems(2)] Suc.prems(1) by simp
  then have c: "CallOrDrop P C w = Inr (False, w\<lparr>dropped_calls := dropped_calls w + 1\<rparr>)"
    using Suc.prems(1) by (simp add: CallOrDrop_def)
  have "CallOrDrop_each P C (replicate n 0) (w\<lparr>dropped_calls := dropped_calls w + 1\<rparr>) =
     Inr (replicate n False, w\<lparr>dropped_calls := dropped_calls w + 1 + of_nat n\<rparr>)"
    using Suc.IH [of "w\<lparr>dropped_calls := dropped_calls w + 1\<rparr>"] Suc.prems
    by (simp add: TimeNow_def millis_def)
  with c show ?case by (simp add: add.assoc add.commute)
qed

subsection \<open>The bucket stays within \<open>CallsPerPeriod\<close>\<close>

lemma word_pred_le: "(x :: 'a::len word) - 1 \<le> C" if "x \<noteq> 0" "x \<le> C"
proof -
  have "unat (x - 1) = unat x - 1" using that(1) by (rule unat_minus_one)
  with that(2) show ?thesis by (simp add: word_le_nat_alt)
qed

lemma CallOrDrop_bucket_le:
  assumes "CallOrDrop P C w = Inr (b, w')"
  shows "bucket w' \<le> C"
proof -
  from assms obtain w1 where w1: "UpdateBucket P C w = Inr w1"
    by (cases "UpdateBucket P C w") (auto simp: CallOrDrop_def)
  from UpdateBucket_bucket_le [OF w1] have le: "bucket w1 \<le> C" .
  show ?thesis
  proof (cases "0 < bucket w1")
    case True
    then have "bucket w1 \<noteq> 0" by auto
    from word_pred_le [OF this le] assms w1 True show ?thesis
      by (auto simp: CallOrDrop_def Let_def call_fn_def MaybeCallDroppedCallCallback_def)
  next
    case False
    with assms w1 le show ?thesis by (auto simp: CallOrDrop_def)
  qed
qed

lemma Call_loop_bucket_le:
  assumes "Call_loop P C w = Some (Inr w')" "bucket w \<le> C"
  shows "bucket w' \<le> C"
proof -
  have "bucket w \<le> C \<longrightarrow> (\<forall>w'. r = Inr w' \<longrightarrow> bucket w' \<le> C)"
    if "Call_loop P C w = Some r" for r
    using that
  proof (induction rule: Call_loop_induct)
    case (iter w d w1 r)
    from UpdateBucket_bucket_le [OF iter(3)] iter(4) show ?case by simp
  qed auto
  with assms show ?thesis by blast
qed

lemma Call_bucket_le:
  assumes "Call fn P C w = Some (Inr (r, w'))"
  shows "bucket w' \<le> C"
proof -
  from assms obtain w1 w2 where 1: "UpdateBucket P C w = Inr w1"
    and 2: "Call_loop P C w1 = Some (Inr w2)"
    and 3: "w' = call_fn ((MaybeCallDroppedCallCallback w2)\<lparr>bucket := bucket w2 - 1\<rparr>)"
    by (rule Call_Inr)
  from Call_loop_bucket_le [OF 2 UpdateBucket_bucket_le [OF 1]]
  have "bucket w2 \<le> C" .
  from word_pred_le [OF Call_loop_exit_bucket [OF 2] this] show ?thesis
    by (simp add: 3 call_fn_def)
qed

lemma map_sum_snd_Inr: "map_sum id snd x = Inr b \<Longrightarrow> \<exists>a. x = Inr (a, b)"
  by (cases x) auto

lemma step_bucket_le:
  assumes "step P C x w = Some (Inr w')" "bucket w \<le> C"
  shows "bucket w' \<le> C"
proof (cases x)
  case (Advance d)
  with assms show ?thesis by (auto simp: advance_def)
next
  case (SetCallback fn)
  with assms show ?thesis by (auto simp: SetDroppedCallCallback_def)
next
  case Refill
  with assms UpdateBucket_bucket_le [of P C w w'] show ?thesis by simp
next
  case DoCallOrDrop
  with assms(1) have "map_sum id snd (CallOrDrop P C w) = Inr w'" by simp
  from map_sum_snd_Inr [OF this] obtain b where "CallOrDrop P C w = Inr (b, w')" ..
  then show ?thesis by (rule CallOrDrop_bucket_le)
next
  case DoCall
  with assms(1) have "map_option (map_sum id snd) (Call (\<lambda>_. ()) P C w) = Some (Inr w')"
    by simp
  then obtain y where y: "Call (\<lambda>_. ()) P C w = Some y" "map_sum id snd y = Inr w'"
    by blast
  from map_sum_snd_Inr [OF y(2)] y(1)
  obtain r where "Call (\<lambda>_. ()) P C w = Some (Inr (r, w'))" by blast
  then show ?thesis by (rule Call_bucket_le)
qed

lemma run_bucket_le:
  assumes "run P C ops w = Some (Inr w')" "bucket w \<le> C"
  shows "bucket w' \<le> C"
  using assms
proof (induction ops arbitrary: w)
  case Nil
  then show ?case by simp
next
  case (Cons x xs)
  from Cons.prems(1) obtain w1 where s: "step P C x w = Some (Inr w1)"
    and r: "run P C xs w1 = Some (Inr w')"
    by (auto split: option.splits sum.splits)
  from Cons.IH [OF r step_bucket_le [OF s Cons.prems(2)]] show ?case .
qed

subsection \<open>The arithmetic of a refill\<close>


lemma unat_ucast:
  "unat (ucast (x :: 'a::len word) :: 'b::len word) = unat x mod 2 ^ LENGTH('b)"
  by (simp add: unsigned_ucast_eq take_bit_eq_mod)

lemma unat_ucast_le: "unat (ucast (x :: 'a::len word) :: 'b::len word) \<le> unat x"
  by (simp add: unat_ucast)

lemma tokens_le:
  fixes e C P :: "'l::len word"
  shows "unat (ucast (ucast (e * C div P) :: 'i::len word) :: 'l word) \<le> unat (e * C) div unat P"
proof -
  have "unat (ucast (ucast (e * C div P) :: 'i::len word) :: 'l word) \<le> unat (e * C div P)"
    by (rule order_trans [OF unat_ucast_le unat_ucast_le])
  then show ?thesis by (simp add: unat_div)
qed

lemma tokens_times_P:
  fixes e C P :: "'l::len word"
  shows "unat (ucast (ucast (e * C div P) :: 'i::len word) * P)
     = unat (ucast (ucast (e * C div P) :: 'i::len word) :: 'l word) * unat P"
proof -
  let ?m = "ucast (ucast (e * C div P) :: 'i::len word) :: 'l word"
  have "unat ?m * unat P \<le> (unat (e * C) div unat P) * unat P"
    by (rule mult_le_mono1 [OF tokens_le])
  also have "\<dots> \<le> unat (e * C)" by simp
  also have "\<dots> < 2 ^ LENGTH('l)" by simp
  finally show ?thesis by (simp add: unat_mult_lem [THEN iffD1])
qed

lemma tokens_exact:
  fixes e C P :: "'l::len word"
  assumes "unat e * unat C < 2 ^ LENGTH('l)" "unat e * unat C div unat P < 2 ^ LENGTH('i)"
  shows "unat (ucast (ucast (e * C div P) :: 'i::len word) :: 'l word) = unat e * unat C div unat P"
proof -
  have 1: "unat (e * C div P) = unat e * unat C div unat P"
    using assms(1) by (simp add: unat_div unat_mult_lem [THEN iffD1])
  have 2: "unat (ucast (e * C div P) :: 'i word) = unat e * unat C div unat P"
    using assms(2) by (simp add: unat_ucast 1)
  have "unat e * unat C div unat P < 2 ^ LENGTH('l)"
    using assms(1) by (meson div_le_dividend le_less_trans)
  then have "unat (ucast (ucast (e * C div P) :: 'i word) :: 'l word)
      = unat (ucast (e * C div P) :: 'i word)"
    by (simp add: unat_ucast [of "ucast (e * C div P) :: 'i word"] 2)
  with 2 show ?thesis by simp
qed



lemma unat_millis: "clock w < 2 ^ LENGTH('l) \<Longrightarrow> unat (millis (w :: ('l::len, 'i::len) state)) = clock w"
  by (simp add: millis_def unat_of_nat)

lemma GetElapsedTime_nat:
  fixes w :: "('l::len, 'i::len) state"
  assumes "unat (last_bucket_update w) \<le> clock w" "clock w < 2 ^ LENGTH('l)"
  shows "unat (GetElapsedTime w) = clock w - unat (last_bucket_update w)"
proof -
  have le: "last_bucket_update w \<le> TimeNow w"
    using assms by (simp add: word_le_nat_alt TimeNow_def unat_millis)
  then have "\<not> TimeNow w < last_bucket_update w" by simp
  then have "GetElapsedTime w = TimeNow w - last_bucket_update w"
    by (rule GetElapsedTime_no_wrap)
  with le assms(2) show ?thesis by (simp add: unat_sub TimeNow_def unat_millis)
qed



lemma UpdateBucket_nat:
  fixes w :: "('l::len, 'i::len) state"
  assumes nz: "P \<noteq> 0" "C \<noteq> 0"
    and le: "unat (last_bucket_update w) \<le> clock w" and lt: "clock w < 2 ^ LENGTH('l)"
    and mul: "(clock w - unat (last_bucket_update w)) * unat C < 2 ^ LENGTH('l)"
    and cut: "(clock w - unat (last_bucket_update w)) * unat C div unat P < 2 ^ LENGTH('i)"
  defines "n \<equiv> (clock w - unat (last_bucket_update w)) * unat C div unat P"
  shows "\<exists>w1. UpdateBucket P C w = Inr w1 \<and>
     bucket w1 = min_macro (bucket w + of_nat n) C \<and>
     unat (last_bucket_update w1) = unat (last_bucket_update w) + n * unat P div unat C \<and>
     clock w1 = clock w \<and> oversleep w1 = oversleep w"
proof -
  let ?e = "GetElapsedTime w"
  let ?m = "ucast (ucast (?e * C div P) :: 'i word) :: 'l word"
  have e: "unat ?e = clock w - unat (last_bucket_update w)"
    using le lt by (rule GetElapsedTime_nat)
  have m: "unat ?m = n"
    unfolding n_def using tokens_exact [of ?e C P, where 'i = 'i] mul cut by (simp add: e)
  have "of_nat (unat ?m) = ?m" by simp
  then have m': "?m = of_nat n" by (simp only: m)
  have p: "0 < unat P" "0 < unat C" using nz by (simp_all add: unat_gt_0)
  have "n * unat P \<le> (clock w - unat (last_bucket_update w)) * unat C"
    unfolding n_def by simp
  then have "n * unat P div unat C \<le> clock w - unat (last_bucket_update w)"
    using p(2) by (metis div_le_mono nonzero_mult_div_cancel_right less_numeral_extra(3))
  with le lt have b: "unat (last_bucket_update w) + n * unat P div unat C < 2 ^ LENGTH('l)"
    by simp
  have "unat (?m * P div C) = n * unat P div unat C"
    by (simp add: unat_div tokens_times_P m)
  with b have "unat (last_bucket_update w + ?m * P div C)
      = unat (last_bucket_update w) + n * unat P div unat C"
    by (simp add: unat_add_lem [THEN iffD1])
  with UpdateBucket_Inr [OF nz, of w] m' show ?thesis
    by simp
qed

subsection \<open>When \<open>Call\<close> returns\<close>



















text \<open>
  Across a wrap-around one overslept tick need not end the loop either: 3 calls per 10
  ticks, the last refill two ticks before the wrap-around, \<open>Call\<close> entered a tick later.
  The wait of 2 ticks is overslept by one, so that 4 ticks have passed; the elapsed
  time is computed as 3, the refill adds nothing, and every later wait is for zero
  ticks.
\<close>

lemma Call_loop_short_tick_forever:
  "Call_loop 10 3 (\<lparr>bucket = 0, last_bucket_update = 4294967294, dropped_calls = 0,
        dropped_callback = False, clock = 4294967295, oversleep = [1], trace = tr\<rparr>
      :: (32, 16) state) = None"
proof -
  let ?w0 = "\<lparr>bucket = 0, last_bucket_update = 4294967294, dropped_calls = 0,
        dropped_callback = False, clock = 4294967298, oversleep = [], trace = tr\<rparr> :: (32, 16) state"
  have e: "EstimateWaitTime 10 3 ?w0 = Inr 0"
    by (simp add: EstimateWaitTime_def GetElapsedTime_def TimeNow_def millis_def)
  have d: "delay 0 ?w0 = ?w0" by (simp add: delay_def)
  have u: "UpdateBucket 10 3 ?w0 = Inr ?w0"
    by (simp add: UpdateBucket_def GetElapsedTime_def TimeNow_def millis_def min_macro_def)
  have "w \<noteq> ?w0" if "Call_loop 10 3 w = Some r" for w r
    using that
  proof (induction rule: Call_loop_induct)
    case (exit w)
    then show ?case by auto
  next
    case (fault_wait w e)
    then show ?case using EstimateWaitTime_Inl_iff [of 10 3 w] by (cases e) simp
  next
    case (fault_update w d e)
    then show ?case using UpdateBucket_Inl_iff [of 10 3 "delay d w"] by (cases e) simp
  next
    case (iter w d w1 r)
    show ?case
    proof
      assume "w = ?w0"
      with iter(2,3) e d u have "w1 = ?w0" by simp
      with iter(4) show False by simp
    qed
  qed
  then have n: "Call_loop 10 3 ?w0 = None" by (cases "Call_loop 10 3 ?w0") auto
  show ?thesis
    by (subst Call_loop.simps)
      (simp add: EstimateWaitTime_def GetElapsedTime_def TimeNow_def millis_def delay_def
        UpdateBucket_def min_macro_def n)
qed

subsection \<open>The rate of admission\<close>

lemma credit_bound: "0 < k \<Longrightarrow> credit k c b e \<le> c * k + (k - 1)"
proof -
  assume k: "0 < k"
  have "k * min c (b + e div k) \<le> k * c" by simp
  moreover have "e mod k \<le> k - 1" using k by (simp add: less_Suc_eq_le [symmetric])
  ultimately show ?thesis unfolding credit_def by (simp add: mult.commute add_mono)
qed

lemma credit_advance:
  assumes k: "0 < k"
  shows "credit k c b (e + d) \<le> credit k c b e + d"
proof -
  define q r q' r' where "q = e div k" and "r = e mod k"
    and "q' = (e + d) div k" and "r' = (e + d) mod k"
  have e: "e = k * q + r" and e': "e + d = k * q' + r'"
    by (simp_all add: q_def r_def q'_def r'_def)
  have qq: "q \<le> q'" unfolding q_def q'_def by (rule div_le_mono) simp
  have rr: "r' \<le> r + d"
  proof -
    have "r' = (r + d) mod k" unfolding r_def r'_def by (simp add: mod_add_left_eq)
    then show ?thesis by simp
  qed
  have goal: "k * min c (b + q') + r' \<le> k * min c (b + q) + r + d"
  proof (cases "b + q' \<le> c")
    case True
    with qq have "b + q \<le> c" by simp
    with True have "k * min c (b + q') + r' = k * b + (k * q' + r')"
      and "k * min c (b + q) + r + d = k * b + (k * q + r) + d"
      by (simp_all add: min_absorb2 algebra_simps)
    with e e' show ?thesis by simp
  next
    case False
    then have m1: "min c (b + q') = c" by simp
    then have 1: "k * min c (b + q') + r' = k * c + r'" by (simp only:)
    show ?thesis
    proof (cases "b + q \<le> c")
      case True
      then have "k * min c (b + q) + r + d = k * b + (k * q + r) + d"
        by (simp add: min_absorb2 algebra_simps)
      also have "\<dots> = k * b + (k * q' + r')" using e e' by simp
      also have "\<dots> = k * (b + q') + r'" by (simp add: algebra_simps)
      finally have 2: "k * min c (b + q) + r + d = k * (b + q') + r'" .
      from False have "c \<le> b + q'" by simp
      then have "k * c \<le> k * (b + q')" by (rule mult_le_mono2)
      with 1 2 show ?thesis by simp
    next
      case F: False
      then have m2: "min c (b + q) = c" by simp
      have "k * c + r' \<le> k * c + r + d" using rr by simp
      then show ?thesis by (simp only: m1 m2)
    qed
  qed
  then show ?thesis unfolding credit_def q_def r_def q'_def r'_def .
qed

lemma credit_refill:
  assumes "0 < k" "b1 \<le> min c (b + e div k)"
  shows "credit k c b1 (e mod k) \<le> credit k c b e"
proof -
  have "min c b1 \<le> min c (b + e div k)" using assms(2) by simp
  then have "k * min c b1 \<le> k * min c (b + e div k)" by (rule mult_le_mono2)
  then show ?thesis using assms(1) by (simp add: credit_def)
qed

lemma credit_take:
  assumes "e < k" "0 < b" "b \<le> c"
  shows "credit k c (b - 1) e + k = credit k c b e"
proof -
  from assms have "min c (b - 1) = b - 1" "min c b = b" by simp_all
  moreover have "k * (b - 1) + k = k * b" using assms(2) by (simp add: algebra_simps)
  ultimately show ?thesis using assms(1) by (simp add: credit_def)
qed

lemma admitted_from_append:
  "admitted_from t (xs @ ys) = admitted_from t xs + admitted_from t ys"
  by (simp add: admitted_from_def)

lemma admitted_in_append:
  "admitted_in t n (xs @ ys) = admitted_in t n xs + admitted_in t n ys"
  by (simp add: admitted_in_def)

lemma admitted_in_le_from: "admitted_in t n tr \<le> admitted_from t tr"
proof -
  have "filter (\<lambda>e. snd e = FnCalled \<and> t \<le> fst e \<and> fst e < t + n) tr
      = filter (\<lambda>e. fst e < t + n) (filter (\<lambda>e. snd e = FnCalled \<and> t \<le> fst e) tr)"
    by (simp add: conj_commute conj_left_commute cong: conj_cong)
  then show ?thesis unfolding admitted_in_def admitted_from_def
    by (simp only: length_filter_le)
qed

lemma admitted_from_later:
  assumes "\<forall>e \<in> set tr. fst e \<le> c" "c < t"
  shows "admitted_from t tr = 0"
  using assms by (auto simp: admitted_from_def filter_empty_conv)

lemma rate_invI:
  assumes "bucket w \<le> C" "t0 \<le> unat (last_bucket_update w)"
    "unat (last_bucket_update w) \<le> clock w"
    "\<And>e. e \<in> set (trace w) \<Longrightarrow> fst e \<le> clock w"
    "\<And>t. t \<le> clock w \<Longrightarrow>
       admitted_from t (trace w) * (unat P div unat C) + potential P C w
         \<le> unat C * (unat P div unat C) + (unat P div unat C - 1) + (clock w - t)"
    "\<And>t. admitted_in t (unat P) (trace w) \<le> 2 * unat C"
  shows "rate_inv P C t0 w"
  using assms unfolding rate_inv_def by blast

lemma rate_invD:
  assumes "rate_inv P C t0 w"
  shows "bucket w \<le> C" "t0 \<le> unat (last_bucket_update w)"
    "unat (last_bucket_update w) \<le> clock w"
    "\<And>e. e \<in> set (trace w) \<Longrightarrow> fst e \<le> clock w"
    "\<And>t. t \<le> clock w \<Longrightarrow>
       admitted_from t (trace w) * (unat P div unat C) + potential P C w
         \<le> unat C * (unat P div unat C) + (unat P div unat C - 1) + (clock w - t)"
    "\<And>t. admitted_in t (unat P) (trace w) \<le> 2 * unat C"
  using assms unfolding rate_inv_def by blast+

text \<open>Time passes.\<close>

lemma rate_inv_later:
  fixes w w' :: "('l::len, 'i::len) state"
  assumes k: "0 < unat P div unat C" and inv: "rate_inv P C t0 w"
    and fr: "bucket w' = bucket w" "last_bucket_update w' = last_bucket_update w"
      "trace w' = trace w" "clock w \<le> clock w'"
  shows "rate_inv P C t0 w'"
proof (rule rate_invI)
  note d = rate_invD [OF inv]
  show "bucket w' \<le> C" "t0 \<le> unat (last_bucket_update w')"
    "unat (last_bucket_update w') \<le> clock w'"
    using d(1,2,3) fr by simp_all
  show "fst e \<le> clock w'" if "e \<in> set (trace w')" for e
    using d(4) [of e] that fr by simp
  show "admitted_in t (unat P) (trace w') \<le> 2 * unat C" for t
    using d(6) [of t] fr by simp
  define x where "x = clock w' - clock w"
  have cw': "clock w' = clock w + x" using fr(4) by (simp add: x_def)
  have "clock w' - unat (last_bucket_update w) = clock w - unat (last_bucket_update w) + x"
    using d(3) by (simp add: cw')
  then have pot: "potential P C w' \<le> potential P C w + x"
    unfolding potential_def fr using credit_advance [OF k] by simp
  show "admitted_from t (trace w') * (unat P div unat C) + potential P C w'
         \<le> unat C * (unat P div unat C) + (unat P div unat C - 1) + (clock w' - t)"
    if t: "t \<le> clock w'" for t
  proof (cases "t \<le> clock w")
    case True
    from d(5) [OF True] pot True show ?thesis by (simp add: fr cw')
  next
    case False
    then have "admitted_from t (trace w) = 0"
      using d(4) by (intro admitted_from_later [of _ "clock w"]) auto
    moreover have "potential P C w' \<le> unat C * (unat P div unat C) + (unat P div unat C - 1)"
      unfolding potential_def by (rule credit_bound [OF k])
    ultimately show ?thesis by (simp add: fr)
  qed
qed

lemma unat_min_macro: "unat (min_macro x C) = min (unat x) (unat C)"
  by (simp add: min_macro_def word_less_nat_alt min_def)

lemma unat_add_of_nat_le: "unat (x + of_nat n :: 'a::len word) \<le> unat x + n"
proof -
  have "unat (x + of_nat n :: 'a word) \<le> unat x + unat (of_nat n :: 'a word)"
    by (simp add: unat_word_ariths)
  also have "\<dots> \<le> unat x + n" by (simp add: unat_of_nat)
  finally show ?thesis .
qed

text \<open>A refill.\<close>

lemma rate_inv_refill:
  fixes w :: "('l::len, 'i::len) state"
  assumes nz: "P \<noteq> 0" "C \<noteq> 0" and dvd: "unat C dvd unat P"
    and inv: "rate_inv P C t0 w" and fits: "fits P C t0 w"
    and upd: "UpdateBucket P C w = Inr w1"
  shows "rate_inv P C t0 w1" and "clock w1 - unat (last_bucket_update w1) < unat P div unat C"
proof -
  note d = rate_invD [OF inv]
  define k e where "k = unat P div unat C" and "e = clock w - unat (last_bucket_update w)"
  have p: "0 < unat P" "0 < unat C" using nz by (simp_all add: unat_gt_0)
  have kc: "unat P = k * unat C" using dvd by (simp add: k_def)
  have k: "0 < k" using p kc by (metis mult_is_0 not_gr_zero)
  have le_e: "e \<le> clock w - t0" using d(2) by (simp add: e_def)
  have lt: "clock w < 2 ^ LENGTH('l)" using fits by (simp add: fits_def)
  have "e * unat C \<le> (clock w - t0) * unat C" using le_e by (rule mult_le_mono1)
  moreover have "(clock w - t0) * unat C < 2 ^ LENGTH('l)" using fits by (simp add: fits_def)
  ultimately have mul: "e * unat C < 2 ^ LENGTH('l)" by (rule le_less_trans)
  have "e * unat C div unat P \<le> (clock w - t0) * unat C div unat P"
    using le_e by (intro div_le_mono mult_le_mono1)
  moreover have "(clock w - t0) * unat C div unat P < 2 ^ LENGTH('i)"
    using fits by (simp add: fits_def)
  ultimately have cut: "e * unat C div unat P < 2 ^ LENGTH('i)" by (rule le_less_trans)
  from UpdateBucket_nat [OF nz d(3) lt mul [unfolded e_def] cut [unfolded e_def], folded e_def] upd
  have b1: "bucket w1 = min_macro (bucket w + of_nat (e * unat C div unat P)) C"
    and l1: "unat (last_bucket_update w1)
       = unat (last_bucket_update w) + (e * unat C div unat P) * unat P div unat C"
    and c1: "clock w1 = clock w"
    by simp_all
  have t1: "trace w1 = trace w" using upd by (rule UpdateBucket_frame)
  have n: "e * unat C div unat P = e div k" using p by (simp add: kc)
  have "(e div k) * unat P div unat C = (e div k) * k" using p by (simp add: kc)
  with l1 n have l1': "unat (last_bucket_update w1) = unat (last_bucket_update w) + (e div k) * k"
    by simp
  define q where "q = (e div k) * k"
  have ee: "e = q + e mod k" by (simp add: q_def)
  have ce: "clock w = unat (last_bucket_update w) + e" using d(3) by (simp add: e_def)
  have l1q: "unat (last_bucket_update w1) = unat (last_bucket_update w) + q"
    using l1' by (simp add: q_def)
  have le1: "unat (last_bucket_update w1) \<le> clock w1" using ee ce l1q c1 by arith
  have e1: "clock w1 - unat (last_bucket_update w1) = e mod k" using ee ce l1q c1 by arith
  show fresh: "clock w1 - unat (last_bucket_update w1) < unat P div unat C"
    using k by (simp add: e1 k_def [symmetric])
  have "unat (bucket w1) \<le> min (unat C) (unat (bucket w) + e div k)"
    using unat_add_of_nat_le [of "bucket w" "e div k"]
    by (simp add: b1 n unat_min_macro)
  from credit_refill [OF k this]
  have pot: "potential P C w1 \<le> potential P C w"
    by (simp add: potential_def e1 k_def [symmetric] e_def [symmetric])
  show "rate_inv P C t0 w1"
  proof (rule rate_invI)
    show "bucket w1 \<le> C" using upd by (rule UpdateBucket_bucket_le)
    show "t0 \<le> unat (last_bucket_update w1)" using d(2) l1q by simp
    show "unat (last_bucket_update w1) \<le> clock w1" by (rule le1)
    show "fst x \<le> clock w1" if "x \<in> set (trace w1)" for x
      using d(4) [of x] that by (simp add: t1 c1)
    show "admitted_in t (unat P) (trace w1) \<le> 2 * unat C" for t
      using d(6) [of t] by (simp add: t1)
    show "admitted_from t (trace w1) * (unat P div unat C) + potential P C w1
         \<le> unat C * (unat P div unat C) + (unat P div unat C - 1) + (clock w1 - t)"
      if "t \<le> clock w1" for t
      using d(5) [of t] that pot by (simp add: t1 c1)
  qed
qed

lemma admitted_from_other:
  assumes "\<forall>x \<in> set evs. snd x \<noteq> FnCalled"
  shows "admitted_from t evs = 0"
  using assms by (auto simp: admitted_from_def filter_empty_conv)

lemma admitted_in_other:
  assumes "\<forall>x \<in> set evs. snd x \<noteq> FnCalled"
  shows "admitted_in t n evs = 0"
  using assms by (auto simp: admitted_in_def filter_empty_conv)

text \<open>A token is taken and \<open>fn\<close> is called, right after a refill.\<close>

lemma rate_inv_take:
  fixes w1 w' :: "('l::len, 'i::len) state"
  assumes nz: "P \<noteq> 0" "C \<noteq> 0" and dvd: "unat C dvd unat P"
    and inv: "rate_inv P C t0 w1"
    and fresh: "clock w1 - unat (last_bucket_update w1) < unat P div unat C"
    and tok: "bucket w1 \<noteq> 0"
    and fr: "bucket w' = bucket w1 - 1" "last_bucket_update w' = last_bucket_update w1"
      "clock w' = clock w1"
    and tr: "trace w' = trace w1 @ evs @ [(clock w1, FnCalled)]"
    and evs: "\<forall>x \<in> set evs. fst x = clock w1 \<and> snd x \<noteq> FnCalled"
  shows "rate_inv P C t0 w'"
proof -
  note d = rate_invD [OF inv]
  define k c where "k = unat P div unat C" and "c = unat C"
  have p: "0 < unat P" "0 < c" using nz by (simp_all add: unat_gt_0 c_def)
  have kc: "unat P = k * c" using dvd by (simp add: k_def c_def)
  have k: "0 < k" using p kc by (metis mult_is_0 not_gr_zero)
  have b1: "0 < unat (bucket w1)" "unat (bucket w1) \<le> c"
    using tok d(1) by (simp_all add: unat_gt_0 word_le_nat_alt c_def)
  have b': "unat (bucket w') = unat (bucket w1) - 1"
    using tok by (simp add: fr unat_minus_one)
  have "credit k c (unat (bucket w1) - 1) (clock w1 - unat (last_bucket_update w1)) + k
      = credit k c (unat (bucket w1)) (clock w1 - unat (last_bucket_update w1))"
    using fresh b1 by (intro credit_take) (simp_all add: k_def)
  then have pot: "potential P C w' + k = potential P C w1"
    by (simp add: potential_def fr(2,3) b' k_def c_def)
  have other: "\<forall>x \<in> set evs. snd x \<noteq> FnCalled" using evs by blast
  have from': "admitted_from t (trace w') = admitted_from t (trace w1) + (if t \<le> clock w1 then 1 else 0)"
    for t
    by (simp add: tr admitted_from_append admitted_from_other [OF other])
      (simp add: admitted_from_def)
  have in': "admitted_in t n (trace w')
      = admitted_in t n (trace w1) + (if t \<le> clock w1 \<and> clock w1 < t + n then 1 else 0)"
    for t n
    by (simp add: tr admitted_in_append admitted_in_other [OF other])
      (simp add: admitted_in_def)
  have J: "admitted_from t (trace w') * k + potential P C w'
         \<le> c * k + (k - 1) + (clock w' - t)"
    if t: "t \<le> clock w'" for t
  proof -
    from t have "admitted_from t (trace w') * k + potential P C w'
        = admitted_from t (trace w1) * k + (potential P C w' + k)"
      by (simp add: from' fr algebra_simps)
    also have "\<dots> = admitted_from t (trace w1) * k + potential P C w1" by (simp only: pot)
    also have "\<dots> \<le> c * k + (k - 1) + (clock w1 - t)"
      using d(5) [of t] t by (simp add: fr k_def c_def)
    finally show ?thesis by (simp add: fr)
  qed
  show ?thesis
  proof (rule rate_invI)
    show "bucket w' \<le> C" using word_pred_le [OF tok d(1)] by (simp add: fr)
    show "t0 \<le> unat (last_bucket_update w')" "unat (last_bucket_update w') \<le> clock w'"
      using d(2,3) by (simp_all add: fr)
    show "fst x \<le> clock w'" if "x \<in> set (trace w')" for x
      using that d(4) [of x] evs by (auto simp: tr fr)
    show "admitted_from t (trace w') * (unat P div unat C) + potential P C w'
         \<le> unat C * (unat P div unat C) + (unat P div unat C - 1) + (clock w' - t)"
      if "t \<le> clock w'" for t
      using J [OF that] by (simp add: k_def c_def)
    show "admitted_in t (unat P) (trace w') \<le> 2 * unat C" for t
    proof (cases "t \<le> clock w1 \<and> clock w1 < t + unat P")
      case False
      then have "admitted_in t (unat P) (trace w') = admitted_in t (unat P) (trace w1)"
        unfolding in' by auto
      with d(6) [of t] show ?thesis by simp
    next
      case True
      then have t: "t \<le> clock w'" by (simp add: fr)
      from True have "clock w1 < t + k * c" by (simp add: kc)
      with True have near: "clock w' - t \<le> k * c - 1" unfolding fr by arith
      have "admitted_in t (unat P) (trace w') * k \<le> admitted_from t (trace w') * k"
        by (rule mult_le_mono1) (rule admitted_in_le_from)
      also have "\<dots> \<le> c * k + (k - 1) + (clock w' - t)" using J [OF t] by simp
      also have "\<dots> \<le> c * k + (k - 1) + (k * c - 1)" using near by simp
      also have "\<dots> < (2 * c + 1) * k" using k p(2) by (simp add: algebra_simps)
      finally have "admitted_in t (unat P) (trace w') < 2 * c + 1"
        by (rule mult_less_cancel2 [THEN iffD1, THEN conjunct2])
      then show ?thesis by (simp add: c_def)
    qed
  qed
qed

lemma CallOrDrop_cases:
  assumes "UpdateBucket P C w = Inr w1"
  shows "CallOrDrop P C w =
    (if 0 < bucket w1
     then Inr (True, (call_fn (MaybeCallDroppedCallCallback w1))\<lparr>bucket := bucket w1 - 1\<rparr>)
     else Inr (False, w1\<lparr>dropped_calls := dropped_calls w1 + 1\<rparr>))"
  using assms by (simp add: CallOrDrop_def Let_def call_fn_def MaybeCallDroppedCallCallback_def)

lemma flush_frame:
  "bucket (call_fn (MaybeCallDroppedCallCallback w)) = bucket w"
  "last_bucket_update (call_fn (MaybeCallDroppedCallCallback w)) = last_bucket_update w"
  "clock (call_fn (MaybeCallDroppedCallCallback w)) = clock w"
  "trace (call_fn (MaybeCallDroppedCallCallback w)) = trace w
     @ (if dropped_callback w \<and> 0 < dropped_calls w
        then [(clock w, DroppedCallCallback (dropped_calls w))] else [])
     @ [(clock w, FnCalled)]"
  by (simp_all add: call_fn_def MaybeCallDroppedCallCallback_def)

lemma fits_mono:
  fixes w w' :: "('l::len, 'i::len) state"
  assumes "fits P C t0 w'" "clock w \<le> clock w'"
  shows "fits P C t0 w"
proof -
  have 1: "(clock w - t0) * unat C \<le> (clock w' - t0) * unat C"
    using assms(2) by (intro mult_le_mono1) simp
  then have 2: "(clock w - t0) * unat C div unat P \<le> (clock w' - t0) * unat C div unat P"
    by (rule div_le_mono)
  from assms 1 2 show ?thesis unfolding fits_def by (meson le_less_trans)
qed

lemma slice_pos:
  assumes "P \<noteq> 0" "C \<noteq> 0" "unat C dvd unat P"
  shows "0 < unat P div unat C"
proof -
  have p: "0 < unat P" "0 < unat C" using assms by (simp_all add: unat_gt_0)
  have "unat P = (unat P div unat C) * unat C" using assms(3) by simp
  with p show ?thesis by (metis mult_is_0 not_gr_zero)
qed

lemma CallOrDrop_rate_inv:
  fixes w :: "('l::len, 'i::len) state"
  assumes nz: "P \<noteq> 0" "C \<noteq> 0" and dvd: "unat C dvd unat P"
    and inv: "rate_inv P C t0 w" and fits: "fits P C t0 w"
    and c: "CallOrDrop P C w = Inr (b, w')"
  shows "rate_inv P C t0 w'"
proof -
  from UpdateBucket_Inr [OF nz, of w] obtain w1 where w1: "UpdateBucket P C w = Inr w1"
    by blast
  note r = rate_inv_refill [OF nz dvd inv fits w1]
  show ?thesis
  proof (cases "0 < bucket w1")
    case True
    then have tok: "bucket w1 \<noteq> 0" by auto
    define evs where "evs = (if dropped_callback w1 \<and> 0 < dropped_calls w1
             then [(clock w1, DroppedCallCallback (dropped_calls w1))] else [])"
    from c True
    have w': "w' = (call_fn (MaybeCallDroppedCallCallback w1))\<lparr>bucket := bucket w1 - 1\<rparr>"
      unfolding CallOrDrop_cases [OF w1] by simp
    show ?thesis
    proof (rule rate_inv_take [OF nz dvd r(1) r(2) tok, of w' evs])
      show "bucket w' = bucket w1 - 1" "last_bucket_update w' = last_bucket_update w1"
        "clock w' = clock w1"
        by (simp_all add: w' flush_frame)
      show "trace w' = trace w1 @ evs @ [(clock w1, FnCalled)]"
        by (simp add: w' evs_def flush_frame)
      show "\<forall>x\<in>set evs. fst x = clock w1 \<and> snd x \<noteq> FnCalled" by (simp add: evs_def)
    qed
  next
    case False
    with c have w': "w' = w1\<lparr>dropped_calls := dropped_calls w1 + 1\<rparr>"
      unfolding CallOrDrop_cases [OF w1] by simp
    show ?thesis
      by (rule rate_inv_later [OF slice_pos [OF nz dvd] r(1)]) (simp_all add: w')
  qed
qed

lemma Call_loop_rate_inv:
  fixes v :: "('l::len, 'i::len) state"
  assumes nz: "P \<noteq> 0" "C \<noteq> 0" and dvd: "unat C dvd unat P"
    and run: "Call_loop P C v = Some (Inr w2)"
    and fits: "fits P C t0 w2"
    and inv: "rate_inv P C t0 v"
    and fresh: "clock v - unat (last_bucket_update v) < unat P div unat C"
  shows "rate_inv P C t0 w2 \<and> clock w2 - unat (last_bucket_update w2) < unat P div unat C"
proof -
  have "\<forall>w2. r = Inr w2 \<longrightarrow> clock v \<le> clock w2 \<and>
      (fits P C t0 w2 \<and> rate_inv P C t0 v \<and>
       clock v - unat (last_bucket_update v) < unat P div unat C \<longrightarrow>
       rate_inv P C t0 w2 \<and> clock w2 - unat (last_bucket_update w2) < unat P div unat C)"
    if "Call_loop P C v = Some r" for r
    using that
  proof (induction rule: Call_loop_induct)
    case (iter v d v1 r)
    show ?case
    proof (intro allI impI conjI)
      fix w2
      assume r: "r = Inr w2"
      have c1: "clock v1 = clock (delay d v)" using iter(3) by (rule UpdateBucket_frame)
      have cv: "clock v \<le> clock (delay d v)" using delay_clock [of v d] by simp
      from iter(4) r have le: "clock v1 \<le> clock w2" by blast
      with c1 cv show "clock v \<le> clock w2" by simp
      assume a: "fits P C t0 w2 \<and> rate_inv P C t0 v \<and>
        clock v - unat (last_bucket_update v) < unat P div unat C"
      then have a1: "fits P C t0 w2" and a2: "rate_inv P C t0 v" by simp_all
      have i1: "rate_inv P C t0 (delay d v)"
        by (rule rate_inv_later [OF slice_pos [OF nz dvd] a2]) (simp_all add: delay_frame cv)
      have "clock (delay d v) \<le> clock w2" using le c1 by simp
      with a1 have f1: "fits P C t0 (delay d v)" by (rule fits_mono)
      note r1 = rate_inv_refill [OF nz dvd i1 f1 iter(3)]
      from iter(4) r have "fits P C t0 w2 \<and> rate_inv P C t0 v1 \<and>
          clock v1 - unat (last_bucket_update v1) < unat P div unat C \<longrightarrow>
          rate_inv P C t0 w2 \<and> clock w2 - unat (last_bucket_update w2) < unat P div unat C"
        by blast
      with a1 r1
      show "rate_inv P C t0 w2" "clock w2 - unat (last_bucket_update w2) < unat P div unat C"
        by simp_all
    qed
  qed auto
  from this [OF run] fits inv fresh show ?thesis by simp
qed

lemma Call_rate_inv:
  fixes w :: "('l::len, 'i::len) state"
  assumes nz: "P \<noteq> 0" "C \<noteq> 0" and dvd: "unat C dvd unat P"
    and inv: "rate_inv P C t0 w" and fits: "fits P C t0 w'"
    and c: "Call fn P C w = Some (Inr (r, w'))"
  shows "rate_inv P C t0 w'"
proof -
  from c obtain w1 w2 where 1: "UpdateBucket P C w = Inr w1"
    and 2: "Call_loop P C w1 = Some (Inr w2)"
    and 3: "w' = call_fn ((MaybeCallDroppedCallCallback w2)\<lparr>bucket := bucket w2 - 1\<rparr>)"
    by (rule Call_Inr)
  have c': "clock w2 \<le> clock w'"
    by (simp add: 3 call_fn_def MaybeCallDroppedCallCallback_def)
  with fits have f2: "fits P C t0 w2" by (rule fits_mono)
  have "clock w1 \<le> clock w2" using Call_loop_frame [OF 2] by simp
  with f2 have f1: "fits P C t0 w1" by (rule fits_mono)
  have "clock w \<le> clock w1" using UpdateBucket_frame(3) [OF 1] by simp
  with f1 have "fits P C t0 w" by (rule fits_mono)
  note r1 = rate_inv_refill [OF nz dvd inv this 1]
  note r2 = Call_loop_rate_inv [OF nz dvd 2 f2 r1]
  define evs where "evs = (if dropped_callback w2 \<and> 0 < dropped_calls w2
             then [(clock w2, DroppedCallCallback (dropped_calls w2))] else [])"
  show ?thesis
  proof (rule rate_inv_take [OF nz dvd r2 [THEN conjunct1] r2 [THEN conjunct2]
        Call_loop_exit_bucket [OF 2], of w' evs])
    show "bucket w' = bucket w2 - 1" "last_bucket_update w' = last_bucket_update w2"
      "clock w' = clock w2"
      by (simp_all add: 3 call_fn_def MaybeCallDroppedCallCallback_def)
    show "trace w' = trace w2 @ evs @ [(clock w2, FnCalled)]"
      by (simp add: 3 evs_def call_fn_def MaybeCallDroppedCallCallback_def)
    show "\<forall>x\<in>set evs. fst x = clock w2 \<and> snd x \<noteq> FnCalled" by (simp add: evs_def)
  qed
qed

lemma Call_clock_le:
  assumes "Call fn P C w = Some (Inr (r, w'))"
  shows "clock w \<le> clock w'"
proof -
  from assms obtain w1 w2 where 1: "UpdateBucket P C w = Inr w1"
    and 2: "Call_loop P C w1 = Some (Inr w2)"
    and 3: "w' = call_fn ((MaybeCallDroppedCallCallback w2)\<lparr>bucket := bucket w2 - 1\<rparr>)"
    by (rule Call_Inr)
  have "clock w' = clock w2" by (simp add: 3 call_fn_def MaybeCallDroppedCallCallback_def)
  with UpdateBucket_frame(3) [OF 1] Call_loop_frame [OF 2] show ?thesis by simp
qed

lemma step_cases [consumes 1, case_names Advance SetCallback Refill DoCallOrDrop DoCall]:
  assumes "step P C x w = Some (Inr w')"
  obtains d where "x = Advance d" "w' = advance d w"
  | fn where "x = SetCallback fn" "w' = SetDroppedCallCallback fn w"
  | "x = Refill" "UpdateBucket P C w = Inr w'"
  | b where "x = DoCallOrDrop" "CallOrDrop P C w = Inr (b, w')"
  | r where "x = DoCall" "Call (\<lambda>_. ()) P C w = Some (Inr (r, w'))"
proof (cases x)
  case (Advance d)
  with assms that(1) show ?thesis by simp
next
  case (SetCallback fn)
  with assms that(2) show ?thesis by simp
next
  case Refill
  with assms that(3) show ?thesis by simp
next
  case DoCallOrDrop
  with assms have "map_sum id snd (CallOrDrop P C w) = Inr w'" by simp
  from map_sum_snd_Inr [OF this] DoCallOrDrop that(4) show ?thesis by blast
next
  case DoCall
  with assms have "map_option (map_sum id snd) (Call (\<lambda>_. ()) P C w) = Some (Inr w')"
    by simp
  then obtain y where y: "Call (\<lambda>_. ()) P C w = Some y" "map_sum id snd y = Inr w'"
    by blast
  from map_sum_snd_Inr [OF y(2)] y(1) DoCall that(5) show ?thesis by blast
qed

lemma step_clock_le:
  assumes "step P C x w = Some (Inr w')"
  shows "clock w \<le> clock w'"
  using assms
proof (cases rule: step_cases)
  case (Advance d)
  then show ?thesis by (simp add: advance_def)
next
  case (SetCallback fn)
  then show ?thesis by (simp add: SetDroppedCallCallback_def)
next
  case Refill
  then show ?thesis using UpdateBucket_frame(3) [of P C w w'] by simp
next
  case (DoCallOrDrop b)
  then show ?thesis using CallOrDrop_effect(2) [of P C w b w'] by simp
next
  case (DoCall r)
  then show ?thesis using Call_clock_le [of "\<lambda>_. ()" P C w r w'] by simp
qed

lemma run_clock_le:
  assumes "run P C ops w = Some (Inr w')"
  shows "clock w \<le> clock w'"
  using assms
proof (induction ops arbitrary: w)
  case Nil
  then show ?case by simp
next
  case (Cons x xs)
  from Cons.prems obtain w1 where s: "step P C x w = Some (Inr w1)"
    and r: "run P C xs w1 = Some (Inr w')"
    by (auto split: option.splits sum.splits)
  from step_clock_le [OF s] Cons.IH [OF r] show ?case by simp
qed

lemma step_rate_inv_fits:
  fixes w :: "('l::len, 'i::len) state"
  assumes nz: "P \<noteq> 0" "C \<noteq> 0" and dvd: "unat C dvd unat P"
    and s: "step P C x w = Some (Inr w')"
    and fits: "fits P C t0 w'" and inv: "rate_inv P C t0 w"
  shows "rate_inv P C t0 w'"
proof -
  note k = slice_pos [OF nz dvd]
  have f: "fits P C t0 w" using fits step_clock_le [OF s] by (rule fits_mono)
  from s show ?thesis
  proof (cases rule: step_cases)
    case (Advance d)
    show ?thesis by (rule rate_inv_later [OF k inv]) (simp_all add: Advance advance_def)
  next
    case (SetCallback fn)
    show ?thesis
      by (rule rate_inv_later [OF k inv]) (simp_all add: SetCallback SetDroppedCallCallback_def)
  next
    case Refill
    from rate_inv_refill(1) [OF nz dvd inv f Refill(2)] show ?thesis .
  next
    case (DoCallOrDrop b)
    from CallOrDrop_rate_inv [OF nz dvd inv f DoCallOrDrop(2)] show ?thesis .
  next
    case (DoCall r)
    from Call_rate_inv [OF nz dvd inv fits DoCall(2)] show ?thesis .
  qed
qed

text \<open>
  A run is followed with each refilling operation measured from the last refill before
  it, not from the making of the limiter.
\<close>

lemma rate_inv_base:
  assumes "rate_inv P C t0 w" and "t1 \<le> unat (last_bucket_update w)"
  shows "rate_inv P C t1 w"
  using assms by (simp add: rate_inv_def)

lemma step_rate_inv:
  fixes w :: "('l::len, 'i::len) state"
  assumes nz: "P \<noteq> 0" "C \<noteq> 0" and dvd: "unat C dvd unat P"
    and s: "step P C x w = Some (Inr w')"
    and fits: "refilling x \<longrightarrow> fits P C (unat (last_bucket_update w)) w'"
    and inv: "rate_inv P C 0 w"
  shows "rate_inv P C 0 w'"
proof (cases "refilling x")
  case True
  with fits have f: "fits P C (unat (last_bucket_update w)) w'" by simp
  from inv have "rate_inv P C (unat (last_bucket_update w)) w" by (rule rate_inv_base) simp
  from step_rate_inv_fits [OF nz dvd s f this]
  show ?thesis by (rule rate_inv_base) simp
next
  case False
  note k = slice_pos [OF nz dvd]
  from s show ?thesis
  proof (cases rule: step_cases)
    case (Advance d)
    show ?thesis by (rule rate_inv_later [OF k inv]) (simp_all add: Advance advance_def)
  next
    case (SetCallback fn)
    show ?thesis
      by (rule rate_inv_later [OF k inv]) (simp_all add: SetCallback SetDroppedCallCallback_def)
  qed (use False in \<open>simp_all add: refilling_def\<close>)
qed

lemma run_rate_inv:
  fixes w :: "('l::len, 'i::len) state"
  assumes nz: "P \<noteq> 0" "C \<noteq> 0" and dvd: "unat C dvd unat P"
    and r: "run P C ops w = Some (Inr w')"
    and fit: "refills_fit P C ops w" and inv: "rate_inv P C 0 w"
  shows "rate_inv P C 0 w'"
  using r fit inv
proof (induction ops arbitrary: w)
  case Nil
  then show ?case by simp
next
  case (Cons x xs)
  from Cons.prems(1) obtain w1 where s: "step P C x w = Some (Inr w1)"
    and r: "run P C xs w1 = Some (Inr w')"
    by (auto split: option.splits sum.splits)
  from Cons.prems(2) s
  have f: "refilling x \<longrightarrow> fits P C (unat (last_bucket_update w)) w1"
    and fs: "refills_fit P C xs w1"
    by simp_all
  from step_rate_inv [OF nz dvd s f Cons.prems(3)] have "rate_inv P C 0 w1" .
  with r fs show ?case by (rule Cons.IH)
qed

lemma rate_inv_RateLimiter:
  assumes nz: "P \<noteq> 0" "C \<noteq> 0" and dvd: "unat C dvd unat P"
  shows "rate_inv P C 0 (RateLimiter C t0 ov :: ('l::len, 'i::len) state)"
proof (rule rate_invI)
  let ?w = "RateLimiter C t0 ov :: ('l, 'i) state"
  show "bucket ?w \<le> C" by (simp add: RateLimiter_fields)
  show "0 \<le> unat (last_bucket_update ?w)" by simp
  show "unat (last_bucket_update ?w) \<le> clock ?w"
    by (simp add: RateLimiter_fields unat_of_nat)
  show "fst e \<le> clock ?w" if "e \<in> set (trace ?w)" for e
    using that by (simp add: RateLimiter_fields)
  show "admitted_in t (unat P) (trace ?w) \<le> 2 * unat C" for t
    by (simp add: RateLimiter_fields admitted_in_def)
  have "potential P C ?w \<le> unat C * (unat P div unat C) + (unat P div unat C - 1)"
    unfolding potential_def by (rule credit_bound [OF slice_pos [OF nz dvd]])
  then show "admitted_from t (trace ?w) * (unat P div unat C) + potential P C ?w
         \<le> unat C * (unat P div unat C) + (unat P div unat C - 1) + (clock ?w - t)" for t
    by (simp add: RateLimiter_fields admitted_from_def)
qed

section \<open>The claims\<close>

subsection \<open>C1: the elapsed time across a wrap-around of the tick counter\<close>

text \<open>
  C1 says that the elapsed time is \<open>now - last_bucket_update\<close> when \<open>now\<close> is not below
  \<open>last_bucket_update\<close>, and otherwise \<open>(MAX - last_bucket_update) + now + 1\<close>, the distance
  around the wrap. \<open>GetElapsedTime\<close> leaves out the \<open>+ 1\<close>: a limiter made at the last
  tick before the 32-bit counter wraps and asked one tick later finds that no time has
  passed, where the distance and the claim's formula both give one tick.
\<close>

theorem GetElapsedTime_one_tick_short:
  "GetElapsedTime (advance 1 (RateLimiter 5 4294967295 [] :: (32, 16) state)) = 0 \<and>
   TimeNow (advance 1 (RateLimiter 5 4294967295 [] :: (32, 16) state))
     - last_bucket_update (advance 1 (RateLimiter 5 4294967295 [] :: (32, 16) state)) = 1 \<and>
   (- 1 - last_bucket_update (advance 1 (RateLimiter 5 4294967295 [] :: (32, 16) state)))
     + TimeNow (advance 1 (RateLimiter 5 4294967295 [] :: (32, 16) state)) + 1 = 1"
  by (simp add: GetElapsedTime_def TimeNow_def millis_def RateLimiter_fields advance_def)

subsection \<open>C2: the bucket holds at most \<open>CallsPerPeriod\<close> tokens\<close>

text \<open>
  C2: in every state \<open>w\<close> that a limiter reaches from its construction, at any tick, by
  any operations (time passing, setting a callback, the refill step, \<open>CallOrDrop\<close>,
  \<open>Call\<close>), the bucket holds at most \<open>CallsPerPeriod\<close> tokens, and so it does after any
  further operation. The count is unsigned, read here as a natural number: it is never
  below zero, and a bucket taken below zero would hold more than \<open>CallsPerPeriod\<close>.
\<close>

theorem bucket_within_capacity:
  assumes "run P C ops (RateLimiter C t ov) = Some (Inr w)" and "step P C x w = Some (Inr w')"
  shows "unat (bucket w) \<le> unat C \<and> unat (bucket w') \<le> unat C"
proof -
  have "bucket (RateLimiter C t ov :: ('a, 'b) state) \<le> C" by (simp add: RateLimiter_fields)
  from run_bucket_le [OF assms(1) this] have "bucket w \<le> C" .
  with step_bucket_le [OF assms(2)] show ?thesis by (simp add: word_le_nat_alt)
qed

theorem bucket_within_capacity_witness:
  "run 1000 5 [DoCallOrDrop, Advance 100, SetCallback True, Refill] (RateLimiter 5 0 [] :: (32, 16) state) =
     Some (Inr \<lparr>bucket = 4, last_bucket_update = 0, dropped_calls = 0, dropped_callback = True,
        clock = 100, oversleep = [], trace = [(0, FnCalled)]\<rparr>) \<and>
   step 1000 5 DoCall (\<lparr>bucket = 4, last_bucket_update = 0, dropped_calls = 0, dropped_callback = True,
        clock = 100, oversleep = [], trace = [(0, FnCalled)]\<rparr> :: (32, 16) state) =
     Some (Inr \<lparr>bucket = 3, last_bucket_update = 0, dropped_calls = 0, dropped_callback = True,
        clock = 100, oversleep = [], trace = [(0, FnCalled), (100, FnCalled)]\<rparr>) \<and>
   unat (4 :: 32 word) \<le> unat (5 :: 32 word) \<and> unat (3 :: 32 word) \<le> unat (5 :: 32 word)"
  using bucket_within_capacity [of "1000 :: 32 word" 5 "[DoCallOrDrop, Advance 100, SetCallback True, Refill]" 0 "[]"
      "\<lparr>bucket = 4, last_bucket_update = 0, dropped_calls = 0, dropped_callback = True,
        clock = 100, oversleep = [], trace = [(0, FnCalled)]\<rparr> :: (32, 16) state" DoCall
      "\<lparr>bucket = 3, last_bucket_update = 0, dropped_calls = 0, dropped_callback = True,
        clock = 100, oversleep = [], trace = [(0, FnCalled), (100, FnCalled)]\<rparr>"]
  by (simp add: CallOrDrop_def UpdateBucket_def GetElapsedTime_def TimeNow_def millis_def
      RateLimiter_fields SetDroppedCallCallback_def Call_def Call_loop.simps
      min_macro_def MaybeCallDroppedCallCallback_def call_fn_def advance_def)


subsection \<open>C3: the calls admitted in a window of \<open>Period\<close> ticks\<close>

text \<open>
  C3 says that no window of \<open>Period\<close> ticks holds more than \<open>CallsPerPeriod\<close> admitted
  calls. A full bucket admits \<open>CallsPerPeriod\<close> calls at once and is refilled while the
  window lasts: a limiter of 5 calls per 1000 ticks admits five calls at tick 0 and a
  sixth at tick 200.
\<close>

theorem burst_and_refill_in_one_window:
  "run 1000 5 [DoCallOrDrop, DoCallOrDrop, DoCallOrDrop, DoCallOrDrop, DoCallOrDrop,
      Advance 200, DoCallOrDrop] (RateLimiter 5 0 [] :: (32, 16) state) =
     Some (Inr \<lparr>bucket = 0, last_bucket_update = 200, dropped_calls = 0, dropped_callback = False,
        clock = 200, oversleep = [],
        trace = [(0, FnCalled), (0, FnCalled), (0, FnCalled), (0, FnCalled), (0, FnCalled),
                 (200, FnCalled)]\<rparr>) \<and>
   admitted_in 0 (unat (1000 :: 32 word))
     [(0, FnCalled), (0, FnCalled), (0, FnCalled), (0, FnCalled), (0, FnCalled),
      (200, FnCalled :: 16 word call)] = 6 \<and>
   \<not> admitted_in 0 (unat (1000 :: 32 word))
     [(0, FnCalled), (0, FnCalled), (0, FnCalled), (0, FnCalled), (0, FnCalled),
      (200, FnCalled :: 16 word call)] \<le> unat (5 :: 32 word)"
  by (simp add: CallOrDrop_def UpdateBucket_def GetElapsedTime_def TimeNow_def millis_def
      RateLimiter_fields min_macro_def MaybeCallDroppedCallCallback_def call_fn_def advance_def
      admitted_in_def)

text \<open>
  C3 as amended: no window of \<open>Period\<close> ticks holds more than twice \<open>CallsPerPeriod\<close>
  admitted calls, whatever the operations and the ticks they come at, when
  \<open>CallsPerPeriod\<close> divides \<open>Period\<close>, neither is zero, and the tick arithmetic of every
  operation that refills the bucket (a refill, \<open>CallOrDrop\<close>, \<open>Call\<close>) fits: at the end of
  the operation the tick counter has not wrapped, the ticks since \<open>last_bucket_update\<close>,
  as the operation found it, times \<open>CallsPerPeriod\<close> fit an \<open>unsigned long\<close>, and that
  product divided by \<open>Period\<close> fits an \<open>unsigned int\<close>. Nothing is asked of the time since
  the limiter was made. The witness reaches the bound, ten calls from tick 199 to tick
  1000, and covers a run that lasts longer than an \<open>unsigned long\<close> divided by
  \<open>CallsPerPeriod\<close>.
\<close>

theorem admitted_in_window_le:
  fixes w :: "('l::len, 'i::len) state"
  assumes nz: "P \<noteq> 0" "C \<noteq> 0" and dvd: "unat C dvd unat P"
    and r: "run P C ops (RateLimiter C t0 ov) = Some (Inr w)"
    and fit: "refills_fit P C ops (RateLimiter C t0 ov :: ('l, 'i) state)"
  shows "admitted_in t (unat P) (trace w) \<le> 2 * unat C"
proof -
  from rate_inv_RateLimiter [OF nz dvd]
  have "rate_inv P C 0 (RateLimiter C t0 ov :: ('l, 'i) state)" .
  from run_rate_inv [OF nz dvd r fit this] have "rate_inv P C 0 w" .
  then show ?thesis by (rule rate_invD(6))
qed

theorem admitted_in_window_le_witness:
  "(1000 :: 32 word) \<noteq> 0 \<and> (5 :: 32 word) \<noteq> 0 \<and>
   unat (5 :: 32 word) dvd unat (1000 :: 32 word) \<and>
   run 1000 5 [Advance 199, DoCallOrDrop, DoCallOrDrop, DoCallOrDrop, DoCallOrDrop,
      DoCallOrDrop, Advance 1, DoCallOrDrop, Advance 200, DoCallOrDrop, Advance 200,
      DoCallOrDrop, Advance 200, DoCallOrDrop, Advance 200, DoCall]
     (RateLimiter 5 0 [] :: (32, 16) state) =
     Some (Inr \<lparr>bucket = 0, last_bucket_update = 1000, dropped_calls = 0,
        dropped_callback = False, clock = 1000, oversleep = [],
        trace = [(199, FnCalled), (199, FnCalled), (199, FnCalled), (199, FnCalled),
                 (199, FnCalled), (200, FnCalled), (400, FnCalled), (600, FnCalled),
                 (800, FnCalled), (1000, FnCalled)]\<rparr>) \<and>
   refills_fit 1000 5 [Advance 199, DoCallOrDrop, DoCallOrDrop, DoCallOrDrop, DoCallOrDrop,
      DoCallOrDrop, Advance 1, DoCallOrDrop, Advance 200, DoCallOrDrop, Advance 200,
      DoCallOrDrop, Advance 200, DoCallOrDrop, Advance 200, DoCall]
     (RateLimiter 5 0 [] :: (32, 16) state) \<and>
   admitted_in 199 (unat (1000 :: 32 word))
     [(199, FnCalled), (199, FnCalled), (199, FnCalled), (199, FnCalled),
      (199, FnCalled), (200, FnCalled), (400, FnCalled), (600, FnCalled),
      (800, FnCalled), (1000, FnCalled :: 16 word call)] = 10 \<and>
   2 * unat (5 :: 32 word) = 10 \<and>
   run 1000 5 [Advance 429496730, DoCallOrDrop, Advance 429496730, DoCallOrDrop]
     (RateLimiter 5 0 [] :: (32, 32) state) =
     Some (Inr \<lparr>bucket = 4, last_bucket_update = 858993400, dropped_calls = 0,
        dropped_callback = False, clock = 858993460, oversleep = [],
        trace = [(429496730, FnCalled), (858993460, FnCalled)]\<rparr>) \<and>
   refills_fit 1000 5 [Advance 429496730, DoCallOrDrop, Advance 429496730, DoCallOrDrop]
     (RateLimiter 5 0 [] :: (32, 32) state) \<and>
   \<not> (858993460 - 0) * unat (5 :: 32 word) < (2 :: nat) ^ LENGTH(32) \<and>
   admitted_in 858992461 (unat (1000 :: 32 word))
     [(429496730, FnCalled), (858993460, FnCalled :: 32 word call)] = 1"
  using admitted_in_window_le [of "1000 :: 32 word" 5
      "[Advance 199, DoCallOrDrop, DoCallOrDrop, DoCallOrDrop, DoCallOrDrop,
      DoCallOrDrop, Advance 1, DoCallOrDrop, Advance 200, DoCallOrDrop, Advance 200,
      DoCallOrDrop, Advance 200, DoCallOrDrop, Advance 200, DoCall]" 0 "[]"
      "\<lparr>bucket = 0, last_bucket_update = 1000, dropped_calls = 0,
        dropped_callback = False, clock = 1000, oversleep = [],
        trace = [(199, FnCalled), (199, FnCalled), (199, FnCalled), (199, FnCalled),
                 (199, FnCalled), (200, FnCalled), (400, FnCalled), (600, FnCalled),
                 (800, FnCalled), (1000, FnCalled)]\<rparr> :: (32, 16) state" 199]
    admitted_in_window_le [of "1000 :: 32 word" 5
      "[Advance 429496730, DoCallOrDrop, Advance 429496730, DoCallOrDrop]" 0 "[]"
      "\<lparr>bucket = 4, last_bucket_update = 858993400, dropped_calls = 0,
        dropped_callback = False, clock = 858993460, oversleep = [],
        trace = [(429496730, FnCalled), (858993460, FnCalled)]\<rparr> :: (32, 32) state"
      858992461]
  by (simp add: CallOrDrop_def UpdateBucket_def GetElapsedTime_def TimeNow_def millis_def
      RateLimiter_fields min_macro_def MaybeCallDroppedCallCallback_def call_fn_def advance_def
      Call_def Call_loop.simps admitted_in_def refilling_def fits_def)

text \<open>
  Where \<open>CallsPerPeriod\<close> does not divide \<open>Period\<close>, \<open>last_bucket_update\<close> moves on by
  less than the new tokens took to accrue, and the bound fails: 6 calls per 10 ticks
  admit 14 calls within the first 10 ticks.
\<close>

lemma admitted_in_window_not_dividing:
  "run 10 6 [DoCallOrDrop, DoCallOrDrop, DoCallOrDrop, DoCallOrDrop, DoCallOrDrop,
      DoCallOrDrop, Advance 2, DoCallOrDrop, Advance 1, DoCallOrDrop, Advance 1,
      DoCallOrDrop, Advance 1, DoCallOrDrop, Advance 1, DoCallOrDrop, Advance 1,
      DoCallOrDrop, Advance 1, DoCallOrDrop, Advance 1, DoCallOrDrop]
     (RateLimiter 6 0 [] :: (32, 16) state) =
     Some (Inr \<lparr>bucket = 0, last_bucket_update = 8, dropped_calls = 0,
        dropped_callback = False, clock = 9, oversleep = [],
        trace = [(0, FnCalled), (0, FnCalled), (0, FnCalled), (0, FnCalled),
                 (0, FnCalled), (0, FnCalled), (2, FnCalled), (3, FnCalled),
                 (4, FnCalled), (5, FnCalled), (6, FnCalled), (7, FnCalled),
                 (8, FnCalled), (9, FnCalled)]\<rparr>) \<and>
   admitted_in 0 (unat (10 :: 32 word))
     [(0, FnCalled), (0, FnCalled), (0, FnCalled), (0, FnCalled),
      (0, FnCalled), (0, FnCalled), (2, FnCalled), (3, FnCalled),
      (4, FnCalled), (5, FnCalled), (6, FnCalled), (7, FnCalled),
      (8, FnCalled), (9, FnCalled :: 16 word call)] = 14"
  by (simp add: CallOrDrop_def UpdateBucket_def GetElapsedTime_def TimeNow_def millis_def
      RateLimiter_fields min_macro_def MaybeCallDroppedCallCallback_def call_fn_def advance_def
      admitted_in_def)

subsection \<open>C4: what \<open>CallOrDrop\<close> does\<close>

text \<open>
  C4: \<open>CallOrDrop\<close> refills the bucket first. If there is a token then, it answers
  \<open>true\<close>, has called \<open>fn\<close> exactly once (after the dropped-call callback, if one was
  due) and leaves one token fewer. If there is none, it answers \<open>false\<close>, has called
  nothing, and \<open>dropped_calls\<close> is one more (as an \<open>unsigned int\<close>: the count after the
  largest value is zero). A call on an empty bucket at the tick of the last refill is of
  the second kind. \<open>Period\<close> and \<open>CallsPerPeriod\<close> are not zero.
\<close>

theorem CallOrDrop_admits_or_drops:
  fixes w :: "('l::len, 'i::len) state"
  assumes "P \<noteq> 0" "C \<noteq> 0"
  shows "\<exists>w1 b w'. UpdateBucket P C w = Inr w1 \<and> CallOrDrop P C w = Inr (b, w') \<and>
     (0 < bucket w1 \<longrightarrow>
        b \<and> fn_calls (trace w') = fn_calls (trace w) + 1 \<and>
        trace w' = trace w
          @ (if dropped_callback w \<and> 0 < dropped_calls w
             then [(clock w, DroppedCallCallback (dropped_calls w))] else [])
          @ [(clock w, FnCalled)] \<and>
        unat (bucket w') + 1 = unat (bucket w1)) \<and>
     (bucket w1 = 0 \<longrightarrow>
        \<not> b \<and> trace w' = trace w \<and> bucket w' = 0 \<and>
        dropped_calls w' = dropped_calls w + 1 \<and>
        (dropped_calls w \<noteq> - 1 \<longrightarrow> unat (dropped_calls w') = unat (dropped_calls w) + 1)) \<and>
     (bucket w = 0 \<and> TimeNow w = last_bucket_update w \<longrightarrow> w1 = w \<and> \<not> b)"
proof -
  obtain w1 where w1: "UpdateBucket P C w = Inr w1"
    using UpdateBucket_Inr [OF assms] by blast
  note fr = UpdateBucket_frame [OF w1]
  have same: "w1 = w" if "bucket w = 0" "TimeNow w = last_bucket_update w"
    using UpdateBucket_no_elapsed [OF assms _ that(2)] that(1) w1 by simp
  show ?thesis
  proof (cases "0 < bucket w1")
    case True
    let ?w' = "(call_fn (MaybeCallDroppedCallCallback w1))\<lparr>bucket := bucket w1 - 1\<rparr>"
    have c: "CallOrDrop P C w = Inr (True, ?w')"
      using True w1 by (simp add: CallOrDrop_def Let_def call_fn_def MaybeCallDroppedCallCallback_def)
    have t: "trace ?w' = trace w
          @ (if dropped_callback w \<and> 0 < dropped_calls w
             then [(clock w, DroppedCallCallback (dropped_calls w))] else [])
          @ [(clock w, FnCalled)]"
      by (simp add: call_fn_def MaybeCallDroppedCallCallback_def fr)
    have n: "fn_calls (trace ?w') = fn_calls (trace w) + 1"
      unfolding t by (simp add: fn_calls_append) (simp add: fn_calls_def)
    have "bucket w1 \<noteq> 0" using True by simp
    then have "unat (bucket w1) \<noteq> 0" by (simp add: unat_eq_0)
    then have b: "unat (bucket ?w') + 1 = unat (bucket w1)"
      by (simp add: unat_minus_one \<open>bucket w1 \<noteq> 0\<close>)
    from same \<open>bucket w1 \<noteq> 0\<close>
    have nz: "\<not> (bucket w = 0 \<and> TimeNow w = last_bucket_update w)" by auto
    show ?thesis
      apply (rule exI [of _ w1], rule exI [of _ True], rule exI [of _ ?w'])
      using w1 c t n b True nz by simp
  next
    case False
    then have z: "bucket w1 = 0" by (simp add: word_gt_0)
    let ?w' = "w1\<lparr>dropped_calls := dropped_calls w1 + 1\<rparr>"
    have c: "CallOrDrop P C w = Inr (False, ?w')"
      using z w1 by (simp add: CallOrDrop_def)
    have u: "unat (dropped_calls w + 1) = unat (dropped_calls w) + 1" if "dropped_calls w \<noteq> - 1"
    proof -
      from that have "1 + dropped_calls w \<noteq> 0"
        using max_word_wrap [of "dropped_calls w"] by (auto simp: add.commute)
      from unatSuc [OF this] show ?thesis by (simp add: add.commute)
    qed
    show ?thesis
      apply (rule exI [of _ w1], rule exI [of _ False], rule exI [of _ ?w'])
      using w1 c z fr u same by simp
  qed
qed

theorem CallOrDrop_admits_or_drops_witness:
  "(1000 :: 32 word) \<noteq> 0 \<and> (5 :: 32 word) \<noteq> 0 \<and>
   CallOrDrop 1000 5 (RateLimiter 5 0 [] :: (32, 16) state) =
     Inr (True, (RateLimiter 5 0 [])\<lparr>bucket := 4, trace := [(0, FnCalled)]\<rparr>) \<and>
   CallOrDrop 1000 5 ((RateLimiter 5 0 [] :: (32, 16) state)\<lparr>bucket := 0\<rparr>) =
     Inr (False, (RateLimiter 5 0 [])\<lparr>bucket := 0, dropped_calls := 1\<rparr>)"
  using CallOrDrop_admits_or_drops [of "1000 :: 32 word" 5 "RateLimiter 5 0 [] :: (32, 16) state"]
    CallOrDrop_admits_or_drops [of "1000 :: 32 word" 5 "(RateLimiter 5 0 [] :: (32, 16) state)\<lparr>bucket := 0\<rparr>"]
  by (simp add: CallOrDrop_def UpdateBucket_def GetElapsedTime_def TimeNow_def millis_def
      RateLimiter_fields min_macro_def MaybeCallDroppedCallCallback_def call_fn_def)


subsection \<open>C5: the tokens a refill adds\<close>

text \<open>
  C5 says that a refill adds \<open>floor (elapsed * capacity / period)\<close> tokens, exactly, for
  every elapsed time. \<open>UpdateBucket\<close> multiplies in \<open>unsigned long\<close>, where the product
  wraps around. A limiter of 5 calls per 1000 ticks that has admitted five calls and is
  then left alone for 858993460 ticks finds \<open>858993460 * 5 = 4\<close> modulo \<open>2 ^ 32\<close> and
  adds no token, where the claim gives 4294967 new tokens and a full bucket of 5.
\<close>

theorem UpdateBucket_overflow_no_tokens:
  "run 1000 5 [DoCallOrDrop, DoCallOrDrop, DoCallOrDrop, DoCallOrDrop, DoCallOrDrop,
      Advance 858993460] (RateLimiter 5 0 [] :: (32, 16) state) =
     Some (Inr \<lparr>bucket = 0, last_bucket_update = 0, dropped_calls = 0, dropped_callback = False,
        clock = 858993460, oversleep = [],
        trace = [(0, FnCalled), (0, FnCalled), (0, FnCalled), (0, FnCalled), (0, FnCalled)]\<rparr>) \<and>
   GetElapsedTime (\<lparr>bucket = 0, last_bucket_update = 0, dropped_calls = 0, dropped_callback = False,
        clock = 858993460, oversleep = [],
        trace = [(0, FnCalled), (0, FnCalled), (0, FnCalled), (0, FnCalled), (0, FnCalled)]\<rparr>
        :: (32, 16) state) = 858993460 \<and>
   UpdateBucket 1000 5 (\<lparr>bucket = 0, last_bucket_update = 0, dropped_calls = 0, dropped_callback = False,
        clock = 858993460, oversleep = [],
        trace = [(0, FnCalled), (0, FnCalled), (0, FnCalled), (0, FnCalled), (0, FnCalled)]\<rparr>
        :: (32, 16) state) =
     Inr \<lparr>bucket = 0, last_bucket_update = 0, dropped_calls = 0, dropped_callback = False,
        clock = 858993460, oversleep = [],
        trace = [(0, FnCalled), (0, FnCalled), (0, FnCalled), (0, FnCalled), (0, FnCalled)]\<rparr> \<and>
   (858993460 * 5 div 1000 :: nat) = 4294967 \<and> min (0 + 4294967) (5 :: nat) = 5"
  by (simp add: CallOrDrop_def UpdateBucket_def GetElapsedTime_def TimeNow_def millis_def
      RateLimiter_fields min_macro_def MaybeCallDroppedCallCallback_def call_fn_def advance_def)


subsection \<open>C6: the dropped-call callback\<close>

text \<open>
  C6 says that after \<open>k > 0\<close> calls of \<open>CallOrDrop\<close> denied in a row the callback is
  called once, with \<open>k\<close>, before \<open>fn\<close> on the call that is admitted next.
  \<open>dropped_calls\<close> is an \<open>unsigned int\<close>: where that has 16 bits, \<open>k = 65536\<close> denied
  calls bring the count back to zero, and the admitted call that follows calls \<open>fn\<close>
  without calling the callback. Here a limiter of one call per 1000 ticks, with a
  callback set, admits a first call, denies 65536 calls at the same tick and admits a
  call 1000 ticks later.
\<close>

theorem dropped_calls_count_wraps:
  "CallOrDrop_each 1000 1 (0 # replicate 65536 0 @ [1000])
     (SetDroppedCallCallback True (RateLimiter 1 0 []) :: (32, 16) state) =
   Inr (True # replicate 65536 False @ [True],
       \<lparr>bucket = 0, last_bucket_update = 1000, dropped_calls = 0, dropped_callback = True,
        clock = 1000, oversleep = [], trace = [(0, FnCalled), (1000, FnCalled)]\<rparr>)"
proof -
  let ?w0 = "SetDroppedCallCallback True (RateLimiter 1 0 []) :: (32, 16) state"
  let ?w1 = "\<lparr>bucket = 0, last_bucket_update = 0, dropped_calls = 0, dropped_callback = True,
        clock = 0, oversleep = [], trace = [(0, FnCalled)]\<rparr> :: (32, 16) state"
  have 1: "CallOrDrop 1000 1 (advance 0 ?w0) = Inr (True, ?w1)"
    by (simp add: CallOrDrop_def UpdateBucket_def GetElapsedTime_def TimeNow_def millis_def
      RateLimiter_fields min_macro_def MaybeCallDroppedCallCallback_def call_fn_def
      SetDroppedCallCallback_def)
  have z: "(of_nat 65536 :: 16 word) = 0" by simp
  have 2: "CallOrDrop_each 1000 1 (replicate 65536 0) ?w1 = Inr (replicate 65536 False, ?w1)"
    using CallOrDrop_each_no_elapsed [of "1000 :: 32 word" 1 ?w1 65536]
    by (simp add: TimeNow_def millis_def z)
  have 3: "CallOrDrop_each 1000 1 [1000] ?w1 =
      Inr ([True], \<lparr>bucket = 0, last_bucket_update = 1000, dropped_calls = 0, dropped_callback = True,
        clock = 1000, oversleep = [], trace = [(0, FnCalled), (1000, FnCalled)]\<rparr>)"
    by (simp add: CallOrDrop_def UpdateBucket_def GetElapsedTime_def TimeNow_def millis_def
      min_macro_def MaybeCallDroppedCallCallback_def call_fn_def advance_def)
  show ?thesis
    apply (subst CallOrDrop_each.simps(2))
    apply (simp only: 1 sum.case prod.case)
    apply (subst CallOrDrop_each_append)
    apply (simp only: 2 3 sum.case prod.case append_Cons append_Nil)
    done
qed

text \<open>
  C6 as amended: the callback is set, \<open>dropped_calls\<close> is zero (as after construction, or
  after a call admitted with the callback set), and \<open>CallOrDrop\<close> is denied \<open>k\<close> times in
  a row, at any ticks, and then admitted, where \<open>0 < k < 2 ^ W\<close> for an \<open>unsigned int\<close> of
  \<open>W\<close> bits. Then these calls add to the trace exactly the callback with argument \<open>k\<close>
  followed by \<open>fn\<close>, both at the tick of the admitted call, and \<open>dropped_calls\<close> is
  zero afterwards.
\<close>

theorem dropped_calls_reported_once:
  fixes w :: "('l::len, 'i::len) state"
  assumes run: "CallOrDrop_each P C (ds @ [d]) w = Inr (replicate (length ds) False @ [True], w')"
    and cb: "dropped_callback w" and zero: "dropped_calls w = 0"
    and k: "0 < length ds" "length ds < 2 ^ LENGTH('i)"
  shows "trace w' = trace w @ [(clock w', DroppedCallCallback (of_nat (length ds))),
                               (clock w', FnCalled)] \<and>
         unat (of_nat (length ds) :: 'i word) = length ds \<and>
         dropped_calls w' = 0"
proof -
  from run obtain bs' b w1 where r: "CallOrDrop_each P C ds w = Inr (bs', w1)"
    and s: "CallOrDrop P C (advance d w1) = Inr (b, w')"
    and bs: "replicate (length ds) False @ [True] = bs' @ [b]"
    and c: "clock w' = clock w1 + d"
    by (rule CallOrDrop_each_clock_last)
  from bs have b: "b" and bs': "bs' = replicate (length ds) False" by auto
  from bs' have "True \<notin> set bs'" by auto
  from CallOrDrop_each_dropped [OF r this] zero cb
  have w1: "dropped_calls w1 = of_nat (length ds)" "trace w1 = trace w" "dropped_callback w1"
    by simp_all
  have u: "unat (of_nat (length ds) :: 'i word) = length ds"
    using k(2) by (simp add: unat_of_nat)
  with k(1) have "(of_nat (length ds) :: 'i word) \<noteq> 0"
    by (metis less_numeral_extra(3) unat_0)
  then have pos: "0 < dropped_calls (advance d w1)"
    by (simp add: advance_def w1 word_gt_0)
  from CallOrDrop_effect(3,4) [OF s b] pos w1 c u show ?thesis
    by (simp add: advance_def)
qed

theorem dropped_calls_reported_once_witness:
  "CallOrDrop_each 1000 5 ([0] @ [200])
     ((SetDroppedCallCallback True (RateLimiter 5 0 []) :: (32, 16) state)\<lparr>bucket := 0\<rparr>) =
     Inr (replicate (length [0 :: nat]) False @ [True],
       \<lparr>bucket = 0, last_bucket_update = 200, dropped_calls = 0, dropped_callback = True,
        clock = 200, oversleep = [],
        trace = [(200, DroppedCallCallback 1), (200, FnCalled)]\<rparr>) \<and>
   dropped_callback ((SetDroppedCallCallback True (RateLimiter 5 0 []) :: (32, 16) state)\<lparr>bucket := 0\<rparr>) \<and>
   dropped_calls ((SetDroppedCallCallback True (RateLimiter 5 0 []) :: (32, 16) state)\<lparr>bucket := 0\<rparr>) = 0 \<and>
   0 < length [0 :: nat] \<and> length [0 :: nat] < 2 ^ LENGTH(16) \<and>
   unat (of_nat (length [0 :: nat]) :: 16 word) = 1"
  using dropped_calls_reported_once [of "1000 :: 32 word" 5 "[0]" 200
      "(SetDroppedCallCallback True (RateLimiter 5 0 []) :: (32, 16) state)\<lparr>bucket := 0\<rparr>"
      "\<lparr>bucket = 0, last_bucket_update = 200, dropped_calls = 0, dropped_callback = True,
        clock = 200, oversleep = [],
        trace = [(200, DroppedCallCallback 1), (200, FnCalled)]\<rparr>"]
  by (simp add: CallOrDrop_def UpdateBucket_def GetElapsedTime_def TimeNow_def millis_def
      RateLimiter_fields SetDroppedCallCallback_def
      min_macro_def MaybeCallDroppedCallCallback_def call_fn_def advance_def)

subsection \<open>C7: when \<open>dropped_calls\<close> is reset\<close>

text \<open>
  C7 says that every admitted call resets \<open>dropped_calls\<close> to zero, whether or not a
  callback is set. \<open>MaybeCallDroppedCallCallback\<close> resets it only under
  \<open>dropped_callback && dropped_calls > 0\<close>: with no callback set, a limiter of one call
  per 1000 ticks admits a call, denies one and admits one 1000 ticks later, and
  \<open>dropped_calls\<close> is still 1.
\<close>

theorem admission_keeps_dropped_calls:
  "CallOrDrop_each 1000 1 [0, 0, 1000] (RateLimiter 1 0 [] :: (32, 16) state) =
     Inr ([True, False, True],
       \<lparr>bucket = 0, last_bucket_update = 1000, dropped_calls = 1, dropped_callback = False,
        clock = 1000, oversleep = [], trace = [(0, FnCalled), (1000, FnCalled)]\<rparr>)"
  by (simp add: CallOrDrop_def UpdateBucket_def GetElapsedTime_def TimeNow_def millis_def
      RateLimiter_fields min_macro_def MaybeCallDroppedCallCallback_def call_fn_def advance_def)


text \<open>
  C7 as amended: after any calls of \<open>CallOrDrop\<close>, at any ticks, with a callback set
  \<open>dropped_calls\<close> is the number of calls denied since the last admitted one (added to
  its first value when none was admitted), and with no callback set it is its first value
  plus the number of all calls denied; both modulo \<open>2 ^ W\<close>. A \<open>Call\<close> that returns
  leaves \<open>dropped_calls\<close> zero with a callback set and unchanged with none.
\<close>

theorem dropped_calls_reset_with_callback:
  fixes w :: "('l::len, 'i::len) state"
  shows "(\<forall>ds bs w'. CallOrDrop_each P C ds w = Inr (bs, w') \<longrightarrow>
       dropped_calls w' =
         (if dropped_callback w
          then (if True \<in> set bs then 0 else dropped_calls w)
                 + of_nat (length (takeWhile Not (rev bs)))
          else dropped_calls w + of_nat (length (filter Not bs)))) \<and>
     (\<forall>r w'. Call fn P C w = Some (Inr (r, w')) \<longrightarrow>
       dropped_calls w' = (if dropped_callback w then 0 else dropped_calls w))"
  using dropped_calls_registered [of P C _ w] dropped_calls_unregistered [of P C _ w]
    Call_dropped_calls [of fn P C w]
  by auto

theorem dropped_calls_reset_with_callback_witness:
  "CallOrDrop_each 1000 1 [0, 0, 0]
     (SetDroppedCallCallback True (RateLimiter 1 0 []) :: (32, 16) state) =
     Inr ([True, False, False],
       \<lparr>bucket = 0, last_bucket_update = 0, dropped_calls = 2, dropped_callback = True,
        clock = 0, oversleep = [], trace = [(0, FnCalled)]\<rparr>) \<and>
   length (takeWhile Not (rev [True, False, False])) = 2 \<and>
   Call (\<lambda>_. ()) 1000 1 (SetDroppedCallCallback True (RateLimiter 1 0 []) :: (32, 16) state) =
     Some (Inr ((), \<lparr>bucket = 0, last_bucket_update = 0, dropped_calls = 0, dropped_callback = True,
        clock = 0, oversleep = [], trace = [(0, FnCalled)]\<rparr>))"
  using dropped_calls_reset_with_callback [of "1000 :: 32 word" 1 "SetDroppedCallCallback True (RateLimiter 1 0 []) :: (32, 16) state" "\<lambda>_. ()"]
  by (simp add: CallOrDrop_def UpdateBucket_def GetElapsedTime_def TimeNow_def millis_def
      RateLimiter_fields SetDroppedCallCallback_def Call_def Call_loop.simps
      min_macro_def MaybeCallDroppedCallCallback_def call_fn_def advance_def)


subsection \<open>C8: what \<open>Call\<close> does\<close>




subsection \<open>C9: no check of the template parameters\<close>

text \<open>
  C9 says that a limiter with \<open>CallsPerPeriod = 0\<close> or \<open>Period = 0\<close> is rejected when it
  is constructed. The constructor checks nothing: here it has made a limiter with
  \<open>Period = 0\<close>, whose first \<open>CallOrDrop\<close> divides by zero.
\<close>

theorem zero_Period_not_rejected:
  "last_bucket_update (RateLimiter 5 0 [] :: (32, 16) state) = 0 \<and>
   CallOrDrop 0 5 (RateLimiter 5 0 [] :: (32, 16) state) = Inl DivisionByZero"
  by (simp add: CallOrDrop_def UpdateBucket_def RateLimiter_fields)

text \<open>
  C9 as amended: the constructor accepts every \<open>Period\<close> and \<open>CallsPerPeriod\<close>. A refill,
  and with it \<open>CallOrDrop\<close> and \<open>Call\<close>, divides by zero exactly when one of the two is
  zero, and the wait estimate of \<open>Call\<close> exactly when \<open>CallsPerPeriod\<close> is zero, in every
  state.
\<close>

theorem division_by_zero_iff:
  "(UpdateBucket P C w = Inl DivisionByZero) = (P = 0 \<or> C = 0) \<and>
   (CallOrDrop P C w = Inl DivisionByZero) = (P = 0 \<or> C = 0) \<and>
   (Call fn P C w = Some (Inl DivisionByZero)) = (P = 0 \<or> C = 0) \<and>
   (EstimateWaitTime P C w = Inl DivisionByZero) = (C = 0)"
proof -
  have u: "(UpdateBucket P C w = Inl DivisionByZero) = (P = 0 \<or> C = 0)"
    by (rule UpdateBucket_Inl_iff)
  have c: "(CallOrDrop P C w = Inl DivisionByZero) = (P = 0 \<or> C = 0)"
  proof (cases "UpdateBucket P C w")
    case (Inl e)
    with u show ?thesis by (cases e) (simp add: CallOrDrop_def)
  next
    case (Inr w1)
    with u show ?thesis by (simp add: CallOrDrop_def Let_def)
  qed
  have k: "(Call fn P C w = Some (Inl DivisionByZero)) = (P = 0 \<or> C = 0)"
  proof (cases "UpdateBucket P C w")
    case (Inl e)
    with u show ?thesis by (cases e) (simp add: Call_def)
  next
    case (Inr w1)
    with u have nz: "P \<noteq> 0" "C \<noteq> 0" by auto
    have "Call_loop P C w1 \<noteq> Some (Inl DivisionByZero)"
      using Call_loop_no_fault [OF _ nz] by fastforce
    with Inr nz show ?thesis
      by (auto simp: Call_def Let_def split: option.splits sum.splits)
  qed
  from u c k EstimateWaitTime_Inl_iff [of P C w] show ?thesis by simp
qed

subsection \<open>C10: a refill with no time elapsed\<close>

text \<open>
  C10: with \<open>Period\<close> and \<open>CallsPerPeriod\<close> not zero and a bucket that holds at most
  \<open>CallsPerPeriod\<close> tokens, \<open>UpdateBucket\<close> at the very tick of \<open>last_bucket_update\<close>
  succeeds and changes nothing.
\<close>

theorem UpdateBucket_no_elapsed_identity:
  assumes "P \<noteq> 0" "C \<noteq> 0" "bucket w \<le> C" "TimeNow w = last_bucket_update w"
  shows "UpdateBucket P C w = Inr w"
  using assms by (rule UpdateBucket_no_elapsed)

theorem UpdateBucket_no_elapsed_identity_witness:
  "(1000 :: 32 word) \<noteq> 0 \<and> (5 :: 32 word) \<noteq> 0 \<and>
   bucket (RateLimiter 5 7 [] :: (32, 16) state) \<le> 5 \<and>
   TimeNow (RateLimiter 5 7 [] :: (32, 16) state)
     = last_bucket_update (RateLimiter 5 7 [] :: (32, 16) state) \<and>
   UpdateBucket 1000 5 (RateLimiter 5 7 [] :: (32, 16) state) = Inr (RateLimiter 5 7 [])"
  using UpdateBucket_no_elapsed_identity [of "1000 :: 32 word" 5 "RateLimiter 5 7 [] :: (32, 16) state"]
  by (simp add: RateLimiter_fields TimeNow_def millis_def)

end
